theory Spec2Isabelle
  imports Main "HOL-Library.Sublist" "HOL-Library.AList"
begin

section \<open>Data model\<close>

text \<open>
  The program (\<^verbatim>\<open>main.py\<close>, \<^verbatim>\<open>translate.py\<close>) compares a base
  \<^verbatim>\<open>Localizable.strings\<close> file with comparison files. Python \<^verbatim>\<open>str\<close> values are
  modelled as \<open>string\<close>, a list of characters with codes below 256; the characters the
  code tests for are ASCII, but for two of the whitespace characters that
  \<^verbatim>\<open>strip\<close> removes. A line number is the
  index given by \<^verbatim>\<open>enumerate\<close>, a natural number. Diagnostics printed to
  \<^verbatim>\<open>sys.stderr\<close> do not influence any returned value and are left out, together with
  the reporting flags and the file name that only feed them.
\<close>

text \<open>\<^verbatim>\<open>tuple[int, str]\<close>: (line number, value).\<close>
type_synonym decl = "nat \<times> string"

text \<open>A Python \<^verbatim>\<open>dict\<close>: its items in insertion order, keys pairwise distinct.\<close>
type_synonym ('k, 'v) pydict = "('k \<times> 'v) list"

text \<open>\<^verbatim>\<open>dict[str, tuple[int, str]]\<close>.\<close>
type_synonym parsed = "(string, decl) pydict"

text \<open>\<^verbatim>\<open>tuple[str, tuple[int, str]]\<close>.\<close>
type_synonym missing_decl = "string \<times> decl"

text \<open>\<^verbatim>\<open>tuple[str, tuple[int, str], str]\<close>.\<close>
type_synonym translated_decl = "string \<times> decl \<times> string"

datatype error =
    ValueError string
  | UnicodeDecodeError       \<comment> \<open>in Python a subclass of \<^verbatim>\<open>ValueError\<close>, raised by the codec\<close>
  | AttributeError
  | OSError

definition dict_contains :: "'k \<Rightarrow> ('k, 'v) pydict \<Rightarrow> bool" where
  \<comment> \<open>\<^verbatim>\<open>key in d\<close>\<close>
  "dict_contains k d = (k \<in> set (map fst d))"

definition dict_setitem :: "('k, 'v) pydict \<Rightarrow> 'k \<Rightarrow> 'v \<Rightarrow> ('k, 'v) pydict" where
  \<comment> \<open>\<^verbatim>\<open>d[key] = v\<close>: an existing key keeps its position, a new key goes to the end\<close>
  "dict_setitem d k v = AList.update k v d"

definition dict_keys :: "('k, 'v) pydict \<Rightarrow> 'k list" where
  "dict_keys d = map fst d"

definition dict_wf :: "('k, 'v) pydict \<Rightarrow> bool" where
  \<comment> \<open>the invariant of the representation: no key occurs twice\<close>
  "dict_wf d = distinct (map fst d)"

section \<open>Regular expressions of the \<^verbatim>\<open>re\<close> module\<close>

text \<open>
  The two patterns of the program use literal characters, \<^verbatim>\<open>.\<close>, character ranges,
  greedy \<^verbatim>\<open>*\<close> and \<^verbatim>\<open>{m,n}\<close> on a single character class, a greedy optional
  group and capturing groups. The matcher below is the backtracking search of \<^verbatim>\<open>re\<close>:
  \<open>matches r s\<close> lists every way \<open>r\<close> can match a prefix of \<open>s\<close>, as the captured groups
  and the unread rest, in the order in which backtracking tries them (a greedy operator
  tries the longest repetition first). \<^verbatim>\<open>re.match\<close> takes the first of them.
\<close>

datatype cclass =
    Lit char                   \<comment> \<open>a literal character\<close>
  | Dot                        \<comment> \<open>\<^verbatim>\<open>.\<close>: any character except a newline\<close>
  | CRange char char           \<comment> \<open>\<^verbatim>\<open>a-z\<close> inside brackets\<close>
  | CUnion cclass cclass       \<comment> \<open>two ranges inside one pair of brackets\<close>

datatype regex =
    Eps
  | Sym cclass
  | Star cclass                \<comment> \<open>greedy \<^verbatim>\<open>c*\<close>\<close>
  | Rep cclass nat nat         \<comment> \<open>greedy \<^verbatim>\<open>c{lo,hi}\<close>\<close>
  | Opt regex                  \<comment> \<open>greedy \<^verbatim>\<open>(?:r)?\<close>\<close>
  | Seq regex regex
  | Group regex                \<comment> \<open>capturing \<^verbatim>\<open>(r)\<close>\<close>

definition LF :: char where "LF = CHR 0x0A"
definition CR :: char where "CR = CHR 0x0D"

fun cc :: "cclass \<Rightarrow> char \<Rightarrow> bool" where
  "cc (Lit a) c = (c = a)"
| "cc Dot c = (c \<noteq> LF)"
| "cc (CRange lo hi) c = ((of_char lo :: nat) \<le> of_char c \<and> (of_char c :: nat) \<le> of_char hi)"
| "cc (CUnion a b) c = (cc a c \<or> cc b c)"

fun star_rests :: "cclass \<Rightarrow> string \<Rightarrow> string list" where
  \<comment> \<open>the rests left by \<^verbatim>\<open>c*\<close>, longest repetition first\<close>
  "star_rests c [] = [Nil]"
| "star_rests c (x # xs) = (if cc c x then star_rests c xs @ [x # xs] else [x # xs])"

fun rep_rests :: "cclass \<Rightarrow> nat \<Rightarrow> nat \<Rightarrow> string \<Rightarrow> string list" where
  \<comment> \<open>the rests left by \<^verbatim>\<open>c{lo,hi}\<close>, longest repetition first\<close>
  "rep_rests c lo hi [] = (if lo = 0 then [Nil] else [])"
| "rep_rests c lo hi (x # xs) =
     (if 0 < hi \<and> cc c x then rep_rests c (lo - 1) (hi - 1) xs else []) @
     (if lo = 0 then [x # xs] else [])"

fun matches :: "regex \<Rightarrow> string \<Rightarrow> (string list \<times> string) list" where
  "matches Eps s = [([], s)]"
| "matches (Sym c) s = (case s of [] \<Rightarrow> [] | x # xs \<Rightarrow> if cc c x then [([], xs)] else [])"
| "matches (Star c) s = map (Pair []) (star_rests c s)"
| "matches (Rep c lo hi) s = map (Pair []) (rep_rests c lo hi s)"
| "matches (Opt r) s = matches r s @ [([], s)]"
| "matches (Seq a b) s =
     concat (map (\<lambda>m1. map (\<lambda>m2. (fst m1 @ fst m2, snd m2)) (matches b (snd m1))) (matches a s))"
| "matches (Group r) s =
     map (\<lambda>m. (take (length s - length (snd m)) s # fst m, snd m)) (matches r s)"

definition re_match :: "regex \<Rightarrow> string \<Rightarrow> string list option" where
  \<comment> \<open>\<^verbatim>\<open>pattern.match(s)\<close>, as the tuple \<^verbatim>\<open>groups()\<close> of the match found\<close>
  "re_match r s = (case matches r s of [] \<Rightarrow> None | m # _ \<Rightarrow> Some (fst m))"

fun re_search :: "regex \<Rightarrow> string \<Rightarrow> string list option" where
  \<comment> \<open>\<^verbatim>\<open>re.search\<close>: the first start position, left to right, with a match\<close>
  "re_search r [] = re_match r []"
| "re_search r (x # xs) =
     (case re_match r (x # xs) of Some g \<Rightarrow> Some g | None \<Rightarrow> re_search r xs)"

fun seqs :: "regex list \<Rightarrow> regex" where
  "seqs [] = Eps"
| "seqs [r] = r"
| "seqs (r # rs) = Seq r (seqs rs)"

definition lits :: "string \<Rightarrow> regex list" where
  "lits s = map (\<lambda>c. Sym (Lit c)) s"

section \<open>The resource parser\<close>

definition isspace :: "char \<Rightarrow> bool" where
  \<comment> \<open>\<^verbatim>\<open>str.isspace\<close> on one character\<close>
  "isspace c = ((of_char c :: nat) \<in> {9, 10, 11, 12, 13, 28, 29, 30, 31, 32, 133, 160})"

definition strip :: "string \<Rightarrow> string" where
  \<comment> \<open>\<^verbatim>\<open>str.strip()\<close>\<close>
  "strip s = rev (dropWhile isspace (rev (dropWhile isspace s)))"

definition pattern :: regex where
  \<comment> \<open>\<^verbatim>\<open>re.compile(r"\"(.*)\" *= *\"(.*)\";")\<close>\<close>
  "pattern = seqs
     [Sym (Lit (CHR 0x22)), Group (Star Dot), Sym (Lit (CHR 0x22)),
      Star (Lit CHR '' ''), Sym (Lit CHR ''=''), Star (Lit CHR '' ''),
      Sym (Lit (CHR 0x22)), Group (Star Dot), Sym (Lit (CHR 0x22)), Sym (Lit CHR '';'')]"

fun parse_loop :: "(nat \<times> string) list \<Rightarrow> parsed \<Rightarrow> parsed" where
  \<comment> \<open>\<^verbatim>\<open>for i, line in enumerate(f.readlines())\<close>, on the dictionary \<^verbatim>\<open>lines\<close>\<close>
  "parse_loop [] lines = lines"
| "parse_loop ((i, line) # rest) lines =
     (case re_match pattern (strip line) of
        None \<Rightarrow> parse_loop rest lines
      | Some groups \<Rightarrow>
          if length groups \<noteq> 2 then parse_loop rest lines
          else
            let key = groups ! 0; val = groups ! 1 in
            if dict_contains key lines then parse_loop rest lines
            else parse_loop rest (dict_setitem lines key (i, val)))"

definition parse_lines :: "string list \<Rightarrow> parsed" where
  "parse_lines ls = parse_loop (enumerate 0 ls) []"

fun universal_newlines :: "string \<Rightarrow> string" where
  \<comment> \<open>text mode with the default \<^verbatim>\<open>newline=None\<close>: \<^verbatim>\<open>\r\n\<close> and \<^verbatim>\<open>\r\<close> are read as \<^verbatim>\<open>\n\<close>\<close>
  "universal_newlines [] = []"
| "universal_newlines [c] = [if c = CR then LF else c]"
| "universal_newlines (c # d # cs) =
     (if c = CR \<and> d = LF then LF # universal_newlines cs
      else if c = CR then LF # universal_newlines (d # cs)
      else c # universal_newlines (d # cs))"

fun readlines_acc :: "string \<Rightarrow> string \<Rightarrow> string list" where
  "readlines_acc cur [] = (if cur = [] then [] else [cur])"
| "readlines_acc cur (c # cs) =
     (if c = LF then (cur @ [c]) # readlines_acc [] cs else readlines_acc (cur @ [c]) cs)"

definition readlines :: "string \<Rightarrow> string list" where
  \<comment> \<open>\<^verbatim>\<open>f.readlines()\<close>: the lines of the text, each with its line end\<close>
  "readlines text = readlines_acc [] (universal_newlines text)"

text \<open>
  \<^verbatim>\<open>open(filepath, "r", encoding="utf-8")\<close> and \<^verbatim>\<open>f.readlines()\<close> can fail in two
  ways: the file cannot be opened or read (\<^verbatim>\<open>OSError\<close>), or it can, but its bytes are
  not valid UTF-8 (\<^verbatim>\<open>UnicodeDecodeError\<close>). A file that can be opened and read is
  described by what the codec makes of its bytes; a file system gives this for every path
  that can be opened and read.
\<close>

datatype file_state =
    Undecodable              \<comment> \<open>the bytes are not valid UTF-8\<close>
  | Decodes string           \<comment> \<open>the bytes are valid UTF-8 and decode to this text\<close>

text \<open>The state of each file that can be opened and read.\<close>
type_synonym filesystem = "string \<Rightarrow> file_state option"

definition parse :: "filesystem \<Rightarrow> string \<Rightarrow> error + parsed" where
  "parse fs filepath =
     (case fs filepath of
        None \<Rightarrow> Inl OSError
      | Some Undecodable \<Rightarrow> Inl UnicodeDecodeError
      | Some (Decodes text) \<Rightarrow> Inr (parse_lines (readlines text)))"

section \<open>The declaration differ\<close>

fun missing_loop :: "(string \<times> decl) list \<Rightarrow> parsed \<Rightarrow> missing_decl list \<Rightarrow> missing_decl list" where
  \<comment> \<open>\<^verbatim>\<open>for base_key, base_value in base_parse.items()\<close>, on the list \<^verbatim>\<open>missing_declarations\<close>\<close>
  "missing_loop [] comparison_parse missing_declarations = missing_declarations"
| "missing_loop ((base_key, base_value) # items) comparison_parse missing_declarations =
     (if \<not> dict_contains base_key comparison_parse
      then missing_loop items comparison_parse (missing_declarations @ [(base_key, base_value)])
      else missing_loop items comparison_parse missing_declarations)"

fun str_in :: "string \<Rightarrow> string \<Rightarrow> bool" where
  \<comment> \<open>\<^verbatim>\<open>sub in s\<close> on strings\<close>
  "str_in sub [] = (sub = [])"
| "str_in sub (c # cs) = (prefix sub (c # cs) \<or> str_in sub cs)"

fun filter_py :: "('a \<Rightarrow> bool) \<Rightarrow> 'a list \<Rightarrow> 'a list" where
  \<comment> \<open>\<^verbatim>\<open>list(filter(f, xs))\<close>\<close>
  "filter_py f [] = []"
| "filter_py f (x # xs) = (if f x then x # filter_py f xs else filter_py f xs)"

record missing_locals =
  missing_declarations :: "missing_decl list"
  string_format_lines :: "missing_decl list"

definition get_missing_declarations_locals :: "parsed \<Rightarrow> parsed \<Rightarrow> missing_locals" where
  \<comment> \<open>the two local lists of \<^verbatim>\<open>get_missing_declarations\<close> when it returns\<close>
  "get_missing_declarations_locals base_parse comparison_parse =
     (let md = missing_loop base_parse comparison_parse [];
          sfl = filter_py (\<lambda>x. str_in ''%@'' (snd (snd x))) md
      in \<lparr>missing_declarations = md, string_format_lines = sfl\<rparr>)"

definition get_missing_declarations :: "parsed \<Rightarrow> parsed \<Rightarrow> missing_decl list" where
  \<comment> \<open>\<^verbatim>\<open>return missing_declarations\<close>\<close>
  "get_missing_declarations base_parse comparison_parse =
     missing_declarations (get_missing_declarations_locals base_parse comparison_parse)"

section \<open>The language resolver\<close>

definition lang_pattern :: regex where
  \<comment> \<open>\<^verbatim>\<open>r"([a-z]{2,3}(?:-[a-zA-Z]{2})?)\.lproj"\<close>\<close>
  "lang_pattern = seqs
     (Group (Seq (Rep (CRange CHR ''a'' CHR ''z'') 2 3)
                 (Opt (Seq (Sym (Lit CHR ''-''))
                           (Rep (CUnion (CRange CHR ''a'' CHR ''z'') (CRange CHR ''A'' CHR ''Z'')) 2 2))))
      # lits ''.lproj'')"

definition get_language :: "string \<Rightarrow> error + string" where
  "get_language filepath =
     (case re_search lang_pattern filepath of
        Some g \<Rightarrow> Inr (g ! 0)
      | None \<Rightarrow> Inl (ValueError (''Could not determine language from filepath: '' @ filepath)))"

section \<open>The translation orchestrator\<close>

text \<open>
  \<^verbatim>\<open>get_translated_declarations\<close> reads the attribute \<^verbatim>\<open>text\<close> of every element of
  the list the translator returns. A Python value either has that attribute or raises
  \<^verbatim>\<open>AttributeError\<close> when it is read; a plain \<^verbatim>\<open>str\<close> has none.
\<close>

datatype pyobj =
    PyStr string           \<comment> \<open>a \<^verbatim>\<open>str\<close>\<close>
  | PyTranslated string    \<comment> \<open>an object whose attribute \<^verbatim>\<open>text\<close> is the given string\<close>

fun attr_text :: "pyobj \<Rightarrow> error + string" where
  \<comment> \<open>\<^verbatim>\<open>t.text\<close>\<close>
  "attr_text (PyStr s) = Inl AttributeError"
| "attr_text (PyTranslated s) = Inr s"

text \<open>\<^verbatim>\<open>a_batch_translate(texts, src, dest)\<close>, run to completion.\<close>
type_synonym batch_translate = "string list \<Rightarrow> string \<Rightarrow> string \<Rightarrow> pyobj list"

definition a_batch_translate :: batch_translate where
  \<comment> \<open>\<^verbatim>\<open>Translator.a_batch_translate\<close> of \<^verbatim>\<open>translate.py\<close>\<close>
  "a_batch_translate texts src dest = []"

fun zip_map_text :: "missing_decl list \<Rightarrow> pyobj list \<Rightarrow> error + translated_decl list" where
  \<comment> \<open>\<^verbatim>\<open>list(map(lambda pair: ..., zip(missing_decls, map(lambda t: t.text, translations))))\<close>:
      \<^verbatim>\<open>zip\<close> asks the first iterator, then the second, and stops when either is exhausted;
      the lazy inner \<^verbatim>\<open>map\<close> reads \<^verbatim>\<open>t.text\<close> only when asked\<close>
  "zip_map_text [] translations = Inr []"
| "zip_map_text (d # ds) [] = Inr []"
| "zip_map_text (d # ds) (t # ts) =
     (case attr_text t of
        Inl e \<Rightarrow> Inl e
      | Inr tx \<Rightarrow>
          (case zip_map_text ds ts of
             Inl e \<Rightarrow> Inl e
           | Inr out \<Rightarrow> Inr ((fst d, snd d, tx) # out)))"

definition get_translated_declarations_with ::
  "batch_translate \<Rightarrow> missing_decl list \<Rightarrow> string \<Rightarrow> string \<Rightarrow> error + translated_decl list" where
  \<comment> \<open>the body of \<^verbatim>\<open>get_translated_declarations(missing_decls, dest, src)\<close> for a given
      \<^verbatim>\<open>a_batch_translate\<close>\<close>
  "get_translated_declarations_with translate missing_decls dest src =
     (let texts = map (\<lambda>x. snd (snd x)) missing_decls;
          translations = translate texts src dest
      in zip_map_text missing_decls translations)"

definition get_translated_declarations ::
  "missing_decl list \<Rightarrow> string \<Rightarrow> string \<Rightarrow> error + translated_decl list" where
  \<comment> \<open>with \<^verbatim>\<open>translator = Translator()\<close>, as the program has it\<close>
  "get_translated_declarations = get_translated_declarations_with a_batch_translate"

fun translate_loop ::
  "string \<Rightarrow> (string, missing_decl list) pydict \<Rightarrow> (string, translated_decl list) pydict
     \<Rightarrow> error option \<times> (string, translated_decl list) pydict" where
  \<comment> \<open>\<^verbatim>\<open>for comparison_file, missing_decls in missing_declarations.items()\<close> of
      \<^verbatim>\<open>main\<close>, on the dictionary \<^verbatim>\<open>translated_declarations\<close>; the result is the
      exception that ended the loop, if any, and the dictionary at that moment\<close>
  "translate_loop base_file [] translated = (None, translated)"
| "translate_loop base_file ((comparison_file, missing_decls) # rest) translated =
     (if missing_decls = [] then translate_loop base_file rest translated
      else
        case get_language base_file of
          Inl e \<Rightarrow> (Some e, translated)
        | Inr src \<Rightarrow>
            (case get_language comparison_file of
               Inl e \<Rightarrow> (Some e, translated)
             | Inr dest \<Rightarrow>
                 (case get_translated_declarations missing_decls dest src of
                    Inl e \<Rightarrow> (Some e, translated)
                  | Inr tds \<Rightarrow>
                      translate_loop base_file rest (dict_setitem translated comparison_file tds))))"

section \<open>Notions used to state the properties of the parser\<close>

text \<open>
  The text of a declaration line: a quoted key, an equals sign with any number of spaces
  around it, a quoted value and a semicolon.
\<close>

definition decl_line :: "string \<Rightarrow> string \<Rightarrow> string \<Rightarrow> string \<Rightarrow> string" where
  "decl_line K sp1 sp2 V =
     CHR 0x22 # K @ CHR 0x22 # sp1 @ CHR ''='' # sp2 @ CHR 0x22 # V @ [CHR 0x22, CHR '';'']"

text \<open>
  The sequence that separates key and value in the grammar, \<^verbatim>\<open>" *= *"\<close>, and the
  test whether a text contains it.
\<close>

definition delimiter :: regex where
  "delimiter = seqs [Sym (Lit (CHR 0x22)), Star (Lit CHR '' ''), Sym (Lit CHR ''=''),
                     Star (Lit CHR '' ''), Sym (Lit (CHR 0x22))]"

definition has_delimiter :: "string \<Rightarrow> bool" where
  "has_delimiter w = (re_search delimiter w \<noteq> None)"

text \<open>
  What one line contributes in \<^verbatim>\<open>parse\<close>: the test of the loop body, and the key and
  value it unpacks from \<^verbatim>\<open>match.groups()\<close>.
\<close>

definition line_decl :: "string \<Rightarrow> (string \<times> string) option" where
  "line_decl line =
     (case re_match pattern (strip line) of
        None \<Rightarrow> None
      | Some groups \<Rightarrow> if length groups \<noteq> 2 then None else Some (groups ! 0, groups ! 1))"

text \<open>
  The grammar of the specification read on a whole line: the trimmed line is a declaration
  from its first to its last character.
\<close>

definition conforms_to_grammar :: "string \<Rightarrow> bool" where
  "conforms_to_grammar s = (\<exists>m \<in> set (matches pattern s). snd m = [])"

text \<open>
  The shape of a language code in the words of the specification: two or three lowercase
  letters, optionally followed by a hyphen and two letters.
\<close>

definition is_lower :: "char \<Rightarrow> bool" where
  "is_lower c = ((of_char CHR ''a'' :: nat) \<le> of_char c \<and> (of_char c :: nat) \<le> of_char CHR ''z'')"

definition is_letter :: "char \<Rightarrow> bool" where
  "is_letter c = (is_lower c \<or>
     ((of_char CHR ''A'' :: nat) \<le> of_char c \<and> (of_char c :: nat) \<le> of_char CHR ''Z''))"

definition is_lang_code :: "string \<Rightarrow> bool" where
  "is_lang_code code =
     (\<exists>n \<in> {2, 3}. length (take n code) = n \<and> (\<forall>c \<in> set (take n code). is_lower c) \<and>
        (drop n code = [] \<or>
         (length (drop n code) = 3 \<and> hd (drop n code) = CHR ''-'' \<and>
          (\<forall>c \<in> set (tl (drop n code)). is_letter c))))"




section \<open>An example file\<close>

text \<open>
  Five lines: a declaration, a declaration with other spacing, a second declaration of the
  first key, a line that is no declaration, and a declaration followed by more text.
\<close>

definition example_text :: string where
  \<open>example_text =
     ''"hi" = "Hello";\<newline>  "bye"  =  "Bye";  \<newline>"hi" = "Again";\<newline>junk\<newline>"x" = "y"; // note\<newline>''\<close>

text \<open>
  A file of one line, a declaration with a tab on each side of the equals sign, and a file
  whose bytes are not valid UTF-8.
\<close>

definition example_tab_text :: string where
  "example_tab_text =
     CHR 0x22 # CHR ''k'' # CHR 0x22 # CHR 0x09 # CHR ''='' # CHR 0x09 # CHR 0x22 # CHR ''v'' #
     [CHR 0x22, CHR '';'', CHR 0x0A]"

definition example_fs :: filesystem where
  "example_fs = [''en.lproj/Localizable.strings'' \<mapsto> Decodes example_text,
                 ''de.lproj/Localizable.strings'' \<mapsto> Decodes example_tab_text,
                 ''xx.lproj/Localizable.strings'' \<mapsto> Undecodable]"

section \<open>Properties of the declaration differ\<close>

lemma missing_loop_filter:
  "missing_loop items cmp acc = acc @ filter (\<lambda>kv. \<not> dict_contains (fst kv) cmp) items"
  by (induction items cmp acc rule: missing_loop.induct) auto

lemma filter_py_filter: "filter_py f xs = filter f xs"
  by (induction xs) auto

lemma str_in_iff: "str_in sub s \<longleftrightarrow> (\<exists>a b. s = a @ sub @ b)"
proof (induction s)
  case Nil
  then show ?case by auto
next
  case (Cons c cs)
  show ?case
  proof
    assume "str_in sub (c # cs)"
    then consider "prefix sub (c # cs)" | "str_in sub cs" by auto
    then show "\<exists>a b. c # cs = a @ sub @ b"
    proof cases
      case 1
      then obtain b where "c # cs = sub @ b" by (auto simp: prefix_def)
      then have "c # cs = [] @ sub @ b" by simp
      then show ?thesis by blast
    next
      case 2
      with Cons obtain a b where "cs = a @ sub @ b" by blast
      then have "c # cs = (c # a) @ sub @ b" by simp
      then show ?thesis by blast
    qed
  next
    assume "\<exists>a b. c # cs = a @ sub @ b"
    then obtain a b where ab: "c # cs = a @ sub @ b" by blast
    show "str_in sub (c # cs)"
    proof (cases a)
      case Nil
      with ab have "prefix sub (c # cs)" by (simp add: prefix_def)
      then show ?thesis by simp
    next
      case (Cons a0 as)
      with ab have "cs = as @ sub @ b" by simp
      with Cons.IH show ?thesis by auto
    qed
  qed
qed

text \<open>
  C1. \<^verbatim>\<open>get_missing_declarations\<close> returns exactly the declarations of the base whose key
  is not a key of the comparison: the keys of the result are the keys of the base minus the
  keys of the comparison, each once; every entry carries the line number and value the base
  has for its key; the entries come in the iteration order of the base (the result is a
  subsequence of the base's items); and the result is empty when every base key is a key of
  the comparison.
\<close>
theorem get_missing_declarations_exact:
  assumes "dict_wf base_parse"
  shows "set (map fst (get_missing_declarations base_parse comparison_parse))
           = set (dict_keys base_parse) - set (dict_keys comparison_parse)
       \<and> distinct (map fst (get_missing_declarations base_parse comparison_parse))
       \<and> (\<forall>k d. (k, d) \<in> set (get_missing_declarations base_parse comparison_parse)
             \<longrightarrow> map_of base_parse k = Some d)
       \<and> subseq (get_missing_declarations base_parse comparison_parse) base_parse
       \<and> (set (dict_keys base_parse) \<subseteq> set (dict_keys comparison_parse)
             \<longrightarrow> get_missing_declarations base_parse comparison_parse = [])"
proof -
  let ?m = "get_missing_declarations base_parse comparison_parse"
  have eq: "?m = filter (\<lambda>kv. \<not> dict_contains (fst kv) comparison_parse) base_parse"
    by (simp add: get_missing_declarations_def get_missing_declarations_locals_def
        missing_loop_filter Let_def)
  have d: "distinct (map fst base_parse)" using assms by (simp add: dict_wf_def)
  have 1: "set (map fst ?m) = set (dict_keys base_parse) - set (dict_keys comparison_parse)"
    unfolding eq by (auto simp: dict_keys_def dict_contains_def)
  have 2: "distinct (map fst ?m)"
    unfolding eq using d by (simp add: distinct_map_filter)
  have 3: "\<forall>k d. (k, d) \<in> set ?m \<longrightarrow> map_of base_parse k = Some d"
    unfolding eq using d by auto
  have 4: "subseq ?m base_parse"
    unfolding eq by simp
  have 5: "set (dict_keys base_parse) \<subseteq> set (dict_keys comparison_parse) \<longrightarrow> ?m = []"
    unfolding eq by (auto simp: dict_keys_def dict_contains_def filter_empty_conv)
  from 1 2 3 4 5 show ?thesis by blast
qed

text \<open>
  The scenario of the specification: the base declares \<open>hi\<close> and \<open>bye\<close>, the comparison
  only \<open>hi\<close>.
\<close>
theorem get_missing_declarations_exact_witness:
  "dict_wf [(''hi'', (0::nat, ''Hello'')), (''bye'', (1, ''Bye''))]
   \<and> set (map fst (get_missing_declarations
          [(''hi'', (0, ''Hello'')), (''bye'', (1, ''Bye''))] [(''hi'', (0, ''Salut''))]))
       = set (dict_keys [(''hi'', (0::nat, ''Hello'')), (''bye'', (1, ''Bye''))])
           - set (dict_keys [(''hi'', (0::nat, ''Salut''))])
   \<and> get_missing_declarations
          [(''hi'', (0, ''Hello'')), (''bye'', (1, ''Bye''))] [(''hi'', (0, ''Salut''))]
       = [(''bye'', (1, ''Bye''))]"
proof -
  have h: "dict_wf [(''hi'', (0::nat, ''Hello'')), (''bye'', (1, ''Bye''))]"
    by (simp add: dict_wf_def)
  have v: "get_missing_declarations
          [(''hi'', (0, ''Hello'')), (''bye'', (1, ''Bye''))] [(''hi'', (0, ''Salut''))]
       = [(''bye'', (1, ''Bye''))]"
    by (simp add: get_missing_declarations_def get_missing_declarations_locals_def
        dict_contains_def)
  from get_missing_declarations_exact [OF h, of "[(''hi'', (0, ''Salut''))]"] h v
  show ?thesis by blast
qed

text \<open>
  C8. The list \<^verbatim>\<open>string_format_lines\<close> computed inside \<^verbatim>\<open>get_missing_declarations\<close>
  holds exactly the elements of the missing list whose value contains the two characters
  \<^verbatim>\<open>%@\<close> somewhere; the function returns the full missing list, which keeps every base
  entry whose key the comparison lacks, with or without the marker.
\<close>
theorem string_format_lines_overlay:
  "get_missing_declarations base_parse comparison_parse
     = missing_declarations (get_missing_declarations_locals base_parse comparison_parse)
   \<and> (\<forall>x. x \<in> set (string_format_lines (get_missing_declarations_locals base_parse comparison_parse))
         \<longleftrightarrow> x \<in> set (get_missing_declarations base_parse comparison_parse)
             \<and> (\<exists>a b. snd (snd x) = a @ ''%@'' @ b))
   \<and> (\<forall>k d. (k, d) \<in> set base_parse \<and> \<not> dict_contains k comparison_parse
         \<longrightarrow> (k, d) \<in> set (get_missing_declarations base_parse comparison_parse))"
  by (auto simp: get_missing_declarations_def get_missing_declarations_locals_def Let_def
      missing_loop_filter filter_py_filter str_in_iff)

text \<open>
  Of two missing declarations, the one with the marker is in the subset, the other is not,
  and both are returned.
\<close>
theorem string_format_lines_overlay_witness:
  "(''bye'', (1, ''Bye %@'')) \<in> set (string_format_lines (get_missing_declarations_locals
        [(''hi'', (0, ''Hello'')), (''bye'', (1, ''Bye %@'')), (''ok'', (2, ''OK''))]
        [(''hi'', (0, ''Salut''))]))
   \<and> (''ok'', (2, ''OK'')) \<notin> set (string_format_lines (get_missing_declarations_locals
        [(''hi'', (0, ''Hello'')), (''bye'', (1, ''Bye %@'')), (''ok'', (2, ''OK''))]
        [(''hi'', (0, ''Salut''))]))
   \<and> (''ok'', (2, ''OK'')) \<in> set (get_missing_declarations
        [(''hi'', (0, ''Hello'')), (''bye'', (1, ''Bye %@'')), (''ok'', (2, ''OK''))]
        [(''hi'', (0, ''Salut''))])"
proof -
  let ?b = "[(''hi'', (0::nat, ''Hello'')), (''bye'', (1, ''Bye %@'')), (''ok'', (2, ''OK''))]"
  let ?c = "[(''hi'', (0::nat, ''Salut''))]"
  note t = string_format_lines_overlay [of ?b ?c]
  have m: "get_missing_declarations ?b ?c = [(''bye'', (1, ''Bye %@'')), (''ok'', (2, ''OK''))]"
    by (simp add: get_missing_declarations_def get_missing_declarations_locals_def
        dict_contains_def)
  have "str_in ''%@'' ''Bye %@''" by simp
  then have a: "\<exists>a b. snd (snd (''bye'', (1::nat, ''Bye %@''))) = a @ ''%@'' @ b"
    by (simp add: str_in_iff)
  have "\<not> str_in ''%@'' ''OK''" by simp
  then have b: "\<not> (\<exists>a b. snd (snd (''ok'', (2::nat, ''OK''))) = a @ ''%@'' @ b)"
    by (simp add: str_in_iff)
  from t m a have 1: "(''bye'', (1, ''Bye %@'')) \<in> set (string_format_lines (get_missing_declarations_locals ?b ?c))"
    by simp
  from t b have 2: "(''ok'', (2, ''OK'')) \<notin> set (string_format_lines (get_missing_declarations_locals ?b ?c))"
    by blast
  from m have 3: "(''ok'', (2, ''OK'')) \<in> set (get_missing_declarations ?b ?c)" by simp
  from 1 2 3 show ?thesis by blast
qed

section \<open>Properties of the translation orchestrator\<close>

text \<open>
  C10. With the \<^verbatim>\<open>Translator\<close> of \<^verbatim>\<open>translate.py\<close>, whose \<^verbatim>\<open>a_batch_translate\<close>
  returns the empty list, \<^verbatim>\<open>get_translated_declarations\<close> returns the empty list for
  every list of missing declarations and every pair of languages.
\<close>
theorem shipped_translator_yields_nothing:
  "get_translated_declarations missing_decls dest src = Inr []"
  by (cases missing_decls)
     (simp_all add: get_translated_declarations_def get_translated_declarations_with_def
        a_batch_translate_def)

lemma zip_map_text_translated:
  "zip_map_text ds (map PyTranslated ts) = Inr (map (\<lambda>p. (fst (fst p), snd (fst p), snd p)) (zip ds ts))"
proof (induction ds arbitrary: ts)
  case Nil
  then show ?case by simp
next
  case (Cons d ds)
  then show ?case by (cases ts) simp_all
qed

text \<open>
  C2, as stated, fails: a response shorter than the request raises nothing. Two texts are
  submitted, one translation comes back, and the result is the one-element list.
\<close>
theorem length_mismatch_counterexample:
  "length [PyTranslated ''Au revoir''] \<noteq> length [''Bye'', ''Yes'']
   \<and> get_translated_declarations_with (\<lambda>texts src dest. [PyTranslated ''Au revoir''])
        [(''bye'', (1, ''Bye'')), (''yes'', (2, ''Yes''))] ''fr'' ''en''
       = Inr [(''bye'', (1, ''Bye''), ''Au revoir'')]"
  by (simp add: get_translated_declarations_with_def)

text \<open>
  C2, amended. When the translator answers with objects that carry a \<^verbatim>\<open>text\<close>
  attribute, \<^verbatim>\<open>get_translated_declarations\<close> raises nothing whatever the length of the
  answer: it returns as many entries as the shorter of the two lists has, and entry \<open>i\<close> is
  declaration \<open>i\<close> with translation \<open>i\<close>. A longer or shorter answer is cut to the shorter
  length; nothing is padded.
\<close>
theorem length_mismatch_truncates:
  assumes "translate (map (\<lambda>x. snd (snd x)) missing_decls) src dest = map PyTranslated ts"
  shows "\<exists>out. get_translated_declarations_with translate missing_decls dest src = Inr out
           \<and> length out = min (length missing_decls) (length ts)
           \<and> (\<forall>i < length out. out ! i = (fst (missing_decls ! i), snd (missing_decls ! i), ts ! i))"
  using assms
  by (simp add: get_translated_declarations_with_def zip_map_text_translated)

text \<open>
  Two declarations and three translations: two entries come back, in order.
\<close>
theorem length_mismatch_truncates_witness:
  "(\<lambda>texts src dest. [PyTranslated ''Au revoir'', PyTranslated ''Oui'', PyTranslated ''Non''])
       (map (\<lambda>x. snd (snd x)) [(''bye'', (1::nat, ''Bye'')), (''yes'', (2, ''Yes''))]) ''en'' ''fr''
     = map PyTranslated [''Au revoir'', ''Oui'', ''Non'']
   \<and> (\<exists>out. get_translated_declarations_with
          (\<lambda>texts src dest. [PyTranslated ''Au revoir'', PyTranslated ''Oui'', PyTranslated ''Non''])
          [(''bye'', (1, ''Bye'')), (''yes'', (2, ''Yes''))] ''fr'' ''en'' = Inr out
        \<and> length out = min (length [(''bye'', (1::nat, ''Bye'')), (''yes'', (2, ''Yes''))])
                           (length [''Au revoir'', ''Oui'', ''Non''])
        \<and> (\<forall>i < length out. out ! i =
              (fst ([(''bye'', (1::nat, ''Bye'')), (''yes'', (2, ''Yes''))] ! i),
               snd ([(''bye'', (1::nat, ''Bye'')), (''yes'', (2, ''Yes''))] ! i),
               [''Au revoir'', ''Oui'', ''Non''] ! i)))"
proof -
  let ?tr = "\<lambda>(texts::string list) (src::string) (dest::string).
               [PyTranslated ''Au revoir'', PyTranslated ''Oui'', PyTranslated ''Non'']"
  let ?md = "[(''bye'', (1::nat, ''Bye'')), (''yes'', (2, ''Yes''))]"
  have h: "?tr (map (\<lambda>x. snd (snd x)) ?md) ''en'' ''fr''
             = map PyTranslated [''Au revoir'', ''Oui'', ''Non'']"
    by simp
  from length_mismatch_truncates [of ?tr ?md "''en''" "''fr''", OF h] h
  show ?thesis by blast
qed

text \<open>
  C4, as stated, fails: \<^verbatim>\<open>get_translated_declarations\<close> reads the attribute
  \<^verbatim>\<open>text\<close> of each element of the response (with \<^verbatim>\<open># type: ignore\<close>), so a
  response of plain strings is not paired. For one missing declaration and a translator
  that returns the one string \<^verbatim>\<open>"Au revoir"\<close>, the function raises
  \<^verbatim>\<open>AttributeError\<close>.
\<close>
theorem str_response_counterexample:
  "get_translated_declarations_with (\<lambda>texts src dest. [PyStr ''Au revoir''])
     [(''bye'', (1, ''Bye''))] ''fr'' ''en'' = Inl AttributeError"
  by (simp add: get_translated_declarations_with_def)

text \<open>
  C4, amended. For every list of \<open>N\<close> missing declarations and a translator that returns
  \<open>N\<close> objects, each carrying its translated string in the attribute \<^verbatim>\<open>text\<close>, in
  the order of the submitted values, the result has \<open>N\<close> entries and entry \<open>i\<close> is the key,
  the line number and value of declaration \<open>i\<close>, and translated string \<open>i\<close>.
\<close>
theorem translation_alignment:
  assumes "translate (map (\<lambda>x. snd (snd x)) missing_decls) src dest = map PyTranslated ts"
    and "length ts = length missing_decls"
  shows "\<exists>out. get_translated_declarations_with translate missing_decls dest src = Inr out
           \<and> length out = length missing_decls
           \<and> (\<forall>i < length missing_decls. out ! i =
                 (fst (missing_decls ! i),
                  (fst (snd (missing_decls ! i)), snd (snd (missing_decls ! i))),
                  ts ! i))"
  using assms
  by (simp add: get_translated_declarations_with_def zip_map_text_translated)

text \<open>
  Two declarations and two translations: both entries come back, each with its own
  translation.
\<close>
theorem translation_alignment_witness:
  "(\<lambda>texts src dest. [PyTranslated ''Au revoir'', PyTranslated ''Oui''])
       (map (\<lambda>x. snd (snd x)) [(''bye'', (1::nat, ''Bye'')), (''yes'', (2, ''Yes''))]) ''en'' ''fr''
     = map PyTranslated [''Au revoir'', ''Oui'']
   \<and> length [''Au revoir'', ''Oui''] = length [(''bye'', (1::nat, ''Bye'')), (''yes'', (2, ''Yes''))]
   \<and> (\<exists>out. get_translated_declarations_with
          (\<lambda>texts src dest. [PyTranslated ''Au revoir'', PyTranslated ''Oui''])
          [(''bye'', (1, ''Bye'')), (''yes'', (2, ''Yes''))] ''fr'' ''en'' = Inr out
        \<and> length out = length [(''bye'', (1::nat, ''Bye'')), (''yes'', (2, ''Yes''))]
        \<and> (\<forall>i < length [(''bye'', (1::nat, ''Bye'')), (''yes'', (2, ''Yes''))]. out ! i =
              (fst ([(''bye'', (1::nat, ''Bye'')), (''yes'', (2, ''Yes''))] ! i),
               (fst (snd ([(''bye'', (1::nat, ''Bye'')), (''yes'', (2, ''Yes''))] ! i)),
                snd (snd ([(''bye'', (1::nat, ''Bye'')), (''yes'', (2, ''Yes''))] ! i))),
               [''Au revoir'', ''Oui''] ! i)))"
proof -
  let ?tr = "\<lambda>(texts::string list) (src::string) (dest::string).
               [PyTranslated ''Au revoir'', PyTranslated ''Oui'']"
  let ?md = "[(''bye'', (1::nat, ''Bye'')), (''yes'', (2, ''Yes''))]"
  have h: "?tr (map (\<lambda>x. snd (snd x)) ?md) ''en'' ''fr''
             = map PyTranslated [''Au revoir'', ''Oui'']"
    by simp
  have l: "length [''Au revoir'', ''Oui''] = length ?md" by simp
  note c = translation_alignment [of ?tr ?md "''en''" "''fr''", OF h l]
  show ?thesis by (intro conjI h l c)
qed

section \<open>Properties of the matcher\<close>

lemma star_rests_iff:
  "r \<in> set (star_rests c s) \<longleftrightarrow> (\<exists>w. s = w @ r \<and> (\<forall>x \<in> set w. cc c x))"
proof (induction s)
  case Nil
  then show ?case by auto
next
  case (Cons x xs)
  show ?case
  proof
    assume "r \<in> set (star_rests c (x # xs))"
    then consider "r = x # xs" | "cc c x" "r \<in> set (star_rests c xs)"
      by (auto split: if_splits)
    then show "\<exists>w. x # xs = w @ r \<and> (\<forall>x \<in> set w. cc c x)"
    proof cases
      case 1
      then have "x # xs = [] @ r \<and> (\<forall>x \<in> set []. cc c x)" by simp
      then show ?thesis by blast
    next
      case 2
      with Cons obtain w where "xs = w @ r" "\<forall>x \<in> set w. cc c x" by blast
      with 2 have "x # xs = (x # w) @ r \<and> (\<forall>y \<in> set (x # w). cc c y)" by simp
      then show ?thesis by blast
    qed
  next
    assume "\<exists>w. x # xs = w @ r \<and> (\<forall>x \<in> set w. cc c x)"
    then obtain w where w: "x # xs = w @ r" "\<forall>x \<in> set w. cc c x" by blast
    show "r \<in> set (star_rests c (x # xs))"
    proof (cases w)
      case Nil
      with w have "r = x # xs" by simp
      then show ?thesis by simp
    next
      case (Cons y ys)
      with w have "xs = ys @ r" "\<forall>x \<in> set ys. cc c x" "cc c x" by auto
      with Cons.IH show ?thesis by auto
    qed
  qed
qed

lemma rep_rests_iff:
  "r \<in> set (rep_rests c lo hi s) \<longleftrightarrow>
     (\<exists>w. s = w @ r \<and> lo \<le> length w \<and> length w \<le> hi \<and> (\<forall>x \<in> set w. cc c x))"
proof (induction s arbitrary: lo hi)
  case Nil
  then show ?case by auto
next
  case (Cons x xs)
  show ?case
  proof
    assume "r \<in> set (rep_rests c lo hi (x # xs))"
    then consider "lo = 0" "r = x # xs"
      | "0 < hi" "cc c x" "r \<in> set (rep_rests c (lo - 1) (hi - 1) xs)"
      by (auto split: if_splits)
    then show "\<exists>w. x # xs = w @ r \<and> lo \<le> length w \<and> length w \<le> hi \<and> (\<forall>x \<in> set w. cc c x)"
    proof cases
      case 1
      then have "x # xs = [] @ r \<and> lo \<le> length ([]::string) \<and> length ([]::string) \<le> hi
                  \<and> (\<forall>x \<in> set []. cc c x)" by simp
      then show ?thesis by blast
    next
      case 2
      with Cons.IH [of "lo - 1" "hi - 1"] obtain w where
        "xs = w @ r" "lo - 1 \<le> length w" "length w \<le> hi - 1" "\<forall>x \<in> set w. cc c x" by blast
      with 2 have "x # xs = (x # w) @ r \<and> lo \<le> length (x # w) \<and> length (x # w) \<le> hi
                     \<and> (\<forall>y \<in> set (x # w). cc c y)" by auto
      then show ?thesis by blast
    qed
  next
    assume "\<exists>w. x # xs = w @ r \<and> lo \<le> length w \<and> length w \<le> hi \<and> (\<forall>x \<in> set w. cc c x)"
    then obtain w where w: "x # xs = w @ r" "lo \<le> length w" "length w \<le> hi"
      "\<forall>x \<in> set w. cc c x" by blast
    show "r \<in> set (rep_rests c lo hi (x # xs))"
    proof (cases w)
      case Nil
      with w have "r = x # xs" by simp
      moreover from Nil w have "lo = 0" by simp
      ultimately show ?thesis by simp
    next
      case (Cons y ys)
      with w have "xs = ys @ r" "lo - 1 \<le> length ys" "length ys \<le> hi - 1"
        "\<forall>x \<in> set ys. cc c x" "cc c x" "0 < hi" by auto
      with Cons.IH [of "lo - 1" "hi - 1"] show ?thesis by auto
    qed
  qed
qed

lemma matches_Sym_iff:
  "(g, r) \<in> set (matches (Sym c) s) \<longleftrightarrow> (\<exists>x. s = x # r \<and> cc c x \<and> g = [])"
  by (cases s) auto

lemma matches_Star_iff:
  "(g, r) \<in> set (matches (Star c) s) \<longleftrightarrow> g = [] \<and> (\<exists>w. s = w @ r \<and> (\<forall>x \<in> set w. cc c x))"
  by (auto simp: star_rests_iff)

lemma matches_Rep_iff:
  "(g, r) \<in> set (matches (Rep c lo hi) s) \<longleftrightarrow>
     g = [] \<and> (\<exists>w. s = w @ r \<and> lo \<le> length w \<and> length w \<le> hi \<and> (\<forall>x \<in> set w. cc c x))"
  by (auto simp: rep_rests_iff)

lemma matches_Opt_iff:
  "(g, r) \<in> set (matches (Opt a) s) \<longleftrightarrow> (g, r) \<in> set (matches a s) \<or> (g = [] \<and> r = s)"
  by auto

lemma matches_Seq_iff:
  "(g, r) \<in> set (matches (Seq a b) s) \<longleftrightarrow>
     (\<exists>g1 r1 g2. (g1, r1) \<in> set (matches a s) \<and> (g2, r) \<in> set (matches b r1) \<and> g = g1 @ g2)"
  by force

lemma matches_Group_iff:
  "(g, r) \<in> set (matches (Group a) s) \<longleftrightarrow>
     (\<exists>g'. (g', r) \<in> set (matches a s) \<and> g = take (length s - length r) s # g')"
  by force

lemma matches_suffix: "(g, r) \<in> set (matches a s) \<Longrightarrow> suffix r s"
proof (induction a arbitrary: g r s)
  case (Seq a b)
  then obtain g1 r1 g2 where "(g1, r1) \<in> set (matches a s)" "(g2, r) \<in> set (matches b r1)"
    by (auto simp only: matches_Seq_iff)
  with Seq.IH show ?case using suffix_order.trans by blast
next
  case (Group a)
  then show ?case by (auto simp only: matches_Group_iff)
next
  case (Opt a)
  then show ?case by (auto simp only: matches_Opt_iff)
qed (auto simp: matches_Sym_iff star_rests_iff rep_rests_iff suffix_def)

lemma re_match_None_iff: "re_match r s = None \<longleftrightarrow> matches r s = []"
  by (simp add: re_match_def split: list.splits)

lemma re_search_None_iff:
  "re_search r s = None \<longleftrightarrow> (\<forall>t. suffix t s \<longrightarrow> matches r t = [])"
proof (induction s)
  case Nil
  then show ?case by (simp add: re_match_None_iff)
next
  case (Cons x xs)
  show ?case
  proof (cases "re_match r (x # xs)")
    case None
    then have "matches r (x # xs) = []" by (simp add: re_match_None_iff)
    with None Cons show ?thesis by (auto simp: suffix_Cons)
  next
    case (Some g)
    then have "matches r (x # xs) \<noteq> []" by (simp add: re_match_def split: list.splits)
    moreover have "suffix (x # xs) (x # xs)" by simp
    ultimately show ?thesis using Some by auto
  qed
qed

lemma re_search_match: "re_match r s = Some g \<Longrightarrow> re_search r s = Some g"
  by (cases s) auto

lemma re_search_skip:
  "(\<forall>t. suffix t (a @ s) \<and> length s < length t \<longrightarrow> matches r t = [])
     \<Longrightarrow> re_search r (a @ s) = re_search r s"
proof (induction a)
  case Nil
  then show ?case by simp
next
  case (Cons x a)
  have "matches r (x # a @ s) = []" using Cons.prems by simp
  then have "re_match r (x # a @ s) = None" by (simp add: re_match_None_iff)
  moreover have "re_search r (a @ s) = re_search r s"
    using Cons.prems by (intro Cons.IH) (auto simp: suffix_Cons)
  ultimately show ?case by simp
qed

lemma concat_map_Nil: "(\<forall>x \<in> set xs. f x = []) \<Longrightarrow> concat (map f xs) = []"
  by (induction xs) auto

lemma matches_Seq_first:
  assumes "matches a s = xs @ m1 # ys"
    and "\<forall>m \<in> set xs. matches b (snd m) = []"
    and "matches b (snd m1) = m2 # zs"
  shows "\<exists>rest. matches (Seq a b) s = (fst m1 @ fst m2, snd m2) # rest"
proof -
  let ?F = "\<lambda>m1. map (\<lambda>m2. (fst m1 @ fst m2, snd m2)) (matches b (snd m1))"
  have "concat (map ?F xs) = []" using assms(2) by (intro concat_map_Nil) simp
  then show ?thesis using assms(1,3) by (simp del: concat_eq_Nil_conv)
qed

lemma star_rests_append:
  "\<forall>x \<in> set w. cc c x \<Longrightarrow>
     star_rests c (w @ r) = star_rests c r @ map (\<lambda>u. u @ r) (tl (suffixes w))"
  by (induction w) auto

lemma star_rests_last:
  "\<exists>xs. star_rests c r = xs @ [r] \<and> (\<forall>u \<in> set xs. strict_suffix u r)"
proof (cases r)
  case Nil
  then show ?thesis by simp
next
  case (Cons x xs)
  show ?thesis
  proof (cases "cc c x")
    case True
    have "\<forall>u \<in> set (star_rests c xs). strict_suffix u (x # xs)"
      by (auto simp: star_rests_iff strict_suffix_def suffix_def)
    with True Cons show ?thesis by simp
  next
    case False
    with Cons show ?thesis by simp
  qed
qed

lemma matches_Group_Star_split:
  assumes "\<forall>x \<in> set K. cc c x"
  shows "\<exists>xs ys. matches (Group (Star c)) (K @ r) = xs @ ([K], r) # ys
           \<and> (\<forall>m \<in> set xs. strict_suffix (snd m) r)"
proof -
  obtain us where us: "star_rests c r = us @ [r]" "\<forall>u \<in> set us. strict_suffix u r"
    using star_rests_last by blast
  let ?f = "\<lambda>m. (take (length (K @ r) - length (snd m)) (K @ r) # fst m, snd m)"
  let ?vs = "map (\<lambda>u. u @ r) (tl (suffixes K))"
  have "matches (Group (Star c)) (K @ r)
          = map ?f (map (Pair []) us) @ ?f ([], r) # map ?f (map (Pair []) ?vs)"
    using assms us(1) by (simp add: star_rests_append)
  moreover have "?f ([], r) = ([K], r)" by simp
  moreover have "\<forall>m \<in> set (map ?f (map (Pair []) us)). strict_suffix (snd m) r"
    using us(2) by auto
  ultimately have "matches (Group (Star c)) (K @ r)
          = map ?f (map (Pair []) us) @ ([K], r) # map ?f (map (Pair []) ?vs)
        \<and> (\<forall>m \<in> set (map ?f (map (Pair []) us)). strict_suffix (snd m) r)"
    by simp
  then show ?thesis by blast
qed

lemma matches_Star_Lit_skip:
  assumes "\<forall>x \<in> set sp. x = c" and "d \<noteq> c"
  shows "matches (Seq (Star (Lit c)) (Seq (Sym (Lit d)) X)) (sp @ d # rest) = matches X rest"
  using assms
proof (induction sp)
  case Nil
  then show ?case by (simp add: comp_def)
next
  case (Cons x sp)
  then show ?case by (simp add: comp_def)
qed

lemma matches_Seq_Sym_Lit:
  "matches (Seq (Sym (Lit c)) X) (x # t) = (if x = c then matches X t else [])"
  by (simp add: comp_def)

lemma matches_Seq_Sym_Nil: "matches (Seq (Sym c) X) [] = []"
  by simp

lemma value_part_first:
  assumes "LF \<notin> set V"
  shows "\<exists>zs. matches (Seq (Group (Star Dot)) (Seq (Sym (Lit (CHR 0x22))) (Sym (Lit CHR '';''))))
                 (V @ [CHR 0x22, CHR '';'']) = ([V], []) # zs"
proof -
  let ?r = "[CHR 0x22, CHR '';'']"
  let ?b = "Seq (Sym (Lit (CHR 0x22))) (Sym (Lit CHR '';''))"
  have "\<forall>x \<in> set V. cc Dot x" using assms by auto
  then obtain xs ys where m: "matches (Group (Star Dot)) (V @ ?r) = xs @ ([V], ?r) # ys"
    and xs: "\<forall>m \<in> set xs. strict_suffix (snd m) ?r"
    using matches_Group_Star_split [of V Dot ?r] by blast
  have "\<forall>m \<in> set xs. matches ?b (snd m) = []"
  proof
    fix m assume "m \<in> set xs"
    with xs have "strict_suffix (snd m) ?r" by blast
    then have "snd m = [] \<or> snd m = [CHR '';'']"
      by (auto simp: strict_suffix_def suffix_Cons)
    then show "matches ?b (snd m) = []" by auto
  qed
  moreover have "matches ?b (snd ([V], ?r)) = ([], []) # []" by simp
  ultimately have "\<exists>rest. matches (Seq (Group (Star Dot)) ?b) (V @ ?r)
                     = (fst ([V], ?r) @ fst (([]::string list), ([]::string)), snd (([]::string list), ([]::string))) # rest"
    using m by (intro matches_Seq_first) auto
  then show ?thesis by simp
qed

lemma after_key_first:
  assumes "\<forall>x \<in> set sp1. x = CHR '' ''" and "\<forall>x \<in> set sp2. x = CHR '' ''" and "LF \<notin> set V"
  shows "\<exists>zs. matches
           (Seq (Sym (Lit (CHR 0x22))) (Seq (Star (Lit CHR '' '')) (Seq (Sym (Lit CHR ''=''))
             (Seq (Star (Lit CHR '' '')) (Seq (Sym (Lit (CHR 0x22)))
               (Seq (Group (Star Dot)) (Seq (Sym (Lit (CHR 0x22))) (Sym (Lit CHR '';'')))))))))
           (CHR 0x22 # sp1 @ CHR ''='' # sp2 @ CHR 0x22 # V @ [CHR 0x22, CHR '';''])
         = ([V], []) # zs"
proof -
  have 1: "CHR ''='' \<noteq> CHR '' ''" and 2: "CHR 0x22 \<noteq> CHR '' ''" by simp_all
  have "matches
           (Seq (Sym (Lit (CHR 0x22))) (Seq (Star (Lit CHR '' '')) (Seq (Sym (Lit CHR ''=''))
             (Seq (Star (Lit CHR '' '')) (Seq (Sym (Lit (CHR 0x22)))
               (Seq (Group (Star Dot)) (Seq (Sym (Lit (CHR 0x22))) (Sym (Lit CHR '';'')))))))))
           (CHR 0x22 # sp1 @ CHR ''='' # sp2 @ CHR 0x22 # V @ [CHR 0x22, CHR '';''])
        = matches (Seq (Group (Star Dot)) (Seq (Sym (Lit (CHR 0x22))) (Sym (Lit CHR '';''))))
            (V @ [CHR 0x22, CHR '';''])"
    by (simp only: matches_Seq_Sym_Lit refl if_True matches_Star_Lit_skip [OF assms(1) 1]
          matches_Star_Lit_skip [OF assms(2) 2])
  then show ?thesis using value_part_first [OF assms(3)] by (simp only:)
qed

lemma after_key_sound:
  assumes "(g, r) \<in> set (matches
           (Seq (Sym (Lit (CHR 0x22))) (Seq (Star (Lit CHR '' '')) (Seq (Sym (Lit CHR ''=''))
             (Seq (Star (Lit CHR '' '')) (Seq (Sym (Lit (CHR 0x22)))
               (Seq (Group (Star Dot)) (Seq (Sym (Lit (CHR 0x22))) (Sym (Lit CHR '';'')))))))))
           u)"
  shows "\<exists>sp1 sp2 v. u = CHR 0x22 # sp1 @ CHR ''='' # sp2 @ CHR 0x22 # v @ CHR 0x22 # CHR '';'' # r
           \<and> (\<forall>x \<in> set sp1. x = CHR '' '') \<and> (\<forall>x \<in> set sp2. x = CHR '' '')
           \<and> LF \<notin> set v \<and> g = [v]"
  using assms
  apply (simp only: matches_Seq_iff matches_Sym_iff matches_Star_iff matches_Group_iff)
  apply (elim exE conjE)
  apply (simp only: cc.simps)
  apply clarsimp
  subgoal for w wa wb
    by (rule exI [of _ w], rule exI [of _ wa]) auto
  done

lemma matches_Star_Lit_last:
  assumes "\<forall>x \<in> set sp. x = c" and "d \<noteq> c"
  shows "matches (Seq (Star (Lit c)) (Sym (Lit d))) (sp @ d # rest) = [([], rest)]"
  using assms by (induction sp) (simp_all add: comp_def)

lemma has_delimiter_intro:
  assumes "w = a @ CHR 0x22 # sp1 @ CHR ''='' # sp2 @ CHR 0x22 # b"
    and "\<forall>x \<in> set sp1. x = CHR '' ''" and "\<forall>x \<in> set sp2. x = CHR '' ''"
  shows "has_delimiter w"
proof -
  let ?t = "CHR 0x22 # sp1 @ CHR ''='' # sp2 @ CHR 0x22 # b"
  have 1: "CHR ''='' \<noteq> CHR '' ''" and 2: "CHR 0x22 \<noteq> CHR '' ''" by simp_all
  have "matches delimiter ?t = [([], b)]"
    unfolding delimiter_def seqs.simps
    by (simp only: matches_Seq_Sym_Lit refl if_True matches_Star_Lit_skip [OF assms(2) 1]
          matches_Star_Lit_last [OF assms(3) 2])
  moreover have "suffix ?t w" using assms(1) by (simp add: suffix_def)
  ultimately have "\<not> (\<forall>t. suffix t w \<longrightarrow> matches delimiter t = [])" by auto
  then show ?thesis by (simp only: has_delimiter_def re_search_None_iff not_False_eq_True)
qed

lemma suffix_skip_prefix:
  assumes "suffix (x # u) (a @ b)" and "x \<notin> set a"
  shows "suffix (x # u) b"
proof -
  from assms(1) consider "suffix (x # u) b" | xs where "x # u = xs @ b" "suffix xs a"
    by (auto simp: suffix_append)
  then show ?thesis
  proof cases
    case 1
    then show ?thesis .
  next
    case 2
    show ?thesis
    proof (cases xs)
      case Nil
      with 2 show ?thesis by simp
    next
      case (Cons y ys)
      with 2 have "x \<in> set xs" by simp
      moreover from 2 have "set xs \<subseteq> set a" by (auto simp: suffix_def)
      ultimately show ?thesis using assms(2) by blast
    qed
  qed
qed

lemma append_two_split:
  assumes "A @ [x, y] = B @ C" and "2 \<le> length C"
  shows "\<exists>D. A = B @ D"
proof -
  have "length (A @ [x, y]) = length (B @ C)" using assms(1) by simp
  then have len: "length B \<le> length A" using assms(2) by simp
  have "A = take (length A) (A @ [x, y])" by simp
  also have "\<dots> = take (length A) (B @ C)" using assms(1) by simp
  also have "\<dots> = B @ take (length A - length B) C" using len by simp
  finally show ?thesis by blast
qed

lemma nonempty_has_pair: "xs \<noteq> [] \<Longrightarrow> \<exists>a b. (a, b) \<in> set xs"
  by (cases xs) auto

lemma after_key_none:
  assumes "strict_suffix u (CHR 0x22 # sp1 @ CHR ''='' # sp2 @ CHR 0x22 # V @ [CHR 0x22, CHR '';''])"
    and "\<forall>x \<in> set sp1. x = CHR '' ''" and "\<forall>x \<in> set sp2. x = CHR '' ''"
    and "\<not> has_delimiter (CHR 0x22 # V)"
  shows "matches
           (Seq (Sym (Lit (CHR 0x22))) (Seq (Star (Lit CHR '' '')) (Seq (Sym (Lit CHR ''=''))
             (Seq (Star (Lit CHR '' '')) (Seq (Sym (Lit (CHR 0x22)))
               (Seq (Group (Star Dot)) (Seq (Sym (Lit (CHR 0x22))) (Sym (Lit CHR '';'')))))))))
           u = []"
proof (rule ccontr)
  assume "\<not> ?thesis"
  then obtain g r where "(g, r) \<in> set (matches
           (Seq (Sym (Lit (CHR 0x22))) (Seq (Star (Lit CHR '' '')) (Seq (Sym (Lit CHR ''=''))
             (Seq (Star (Lit CHR '' '')) (Seq (Sym (Lit (CHR 0x22)))
               (Seq (Group (Star Dot)) (Seq (Sym (Lit (CHR 0x22))) (Sym (Lit CHR '';'')))))))))
           u)"
    using nonempty_has_pair by blast
  from after_key_sound [OF this] obtain s1 where
    "\<exists>s2 v. u = CHR 0x22 # s1 @ CHR ''='' # s2 @ CHR 0x22 # v @ CHR 0x22 # CHR '';'' # r
       \<and> (\<forall>x \<in> set s1. x = CHR '' '') \<and> (\<forall>x \<in> set s2. x = CHR '' '')
       \<and> LF \<notin> set v \<and> g = [v]" ..
  then obtain s2 where
    "\<exists>v. u = CHR 0x22 # s1 @ CHR ''='' # s2 @ CHR 0x22 # v @ CHR 0x22 # CHR '';'' # r
       \<and> (\<forall>x \<in> set s1. x = CHR '' '') \<and> (\<forall>x \<in> set s2. x = CHR '' '')
       \<and> LF \<notin> set v \<and> g = [v]" ..
  then obtain v where uv:
    "u = CHR 0x22 # s1 @ CHR ''='' # s2 @ CHR 0x22 # v @ CHR 0x22 # CHR '';'' # r
       \<and> (\<forall>x \<in> set s1. x = CHR '' '') \<and> (\<forall>x \<in> set s2. x = CHR '' '')
       \<and> LF \<notin> set v \<and> g = [v]" ..
  from uv have u: "u = CHR 0x22 # s1 @ CHR ''='' # s2 @ CHR 0x22 # v @ CHR 0x22 # CHR '';'' # r"
    by (rule conjunct1)
  from uv have s1: "\<forall>x \<in> set s1. x = CHR '' ''"
    by (elim conjE)
  from uv have s2: "\<forall>x \<in> set s2. x = CHR '' ''"
    by (elim conjE)
  let ?u' = "s1 @ CHR ''='' # s2 @ CHR 0x22 # v @ CHR 0x22 # CHR '';'' # r"
  from assms(1) have "suffix u (sp1 @ CHR ''='' # sp2 @ CHR 0x22 # V @ [CHR 0x22, CHR '';''])"
    by (auto simp: strict_suffix_def suffix_Cons)
  then have "suffix (CHR 0x22 # ?u') ((sp1 @ CHR ''='' # sp2) @ (CHR 0x22 # V @ [CHR 0x22, CHR '';'']))"
    using u by simp
  moreover have "CHR 0x22 \<notin> set (sp1 @ CHR ''='' # sp2)"
  proof
    assume "CHR 0x22 \<in> set (sp1 @ CHR ''='' # sp2)"
    then consider "CHR 0x22 \<in> set sp1" | "CHR 0x22 \<in> set sp2" by auto
    then have "CHR 0x22 = CHR '' ''"
    proof cases
      case 1
      with assms(2) show ?thesis by (rule bspec)
    next
      case 2
      with assms(3) show ?thesis by (rule bspec)
    qed
    then show False by simp
  qed
  ultimately have "suffix (CHR 0x22 # ?u') (CHR 0x22 # V @ [CHR 0x22, CHR '';''])"
    by (rule suffix_skip_prefix)
  then obtain p where "CHR 0x22 # V @ [CHR 0x22, CHR '';''] = p @ CHR 0x22 # ?u'"
    unfolding suffix_def ..
  then have eq: "(CHR 0x22 # V) @ [CHR 0x22, CHR '';'']
               = (p @ CHR 0x22 # s1 @ CHR ''='' # s2 @ [CHR 0x22]) @ (v @ CHR 0x22 # CHR '';'' # r)"
    by (simp only: append_assoc append_Cons append_Nil)
  have len: "2 \<le> length (v @ CHR 0x22 # CHR '';'' # r)" by simp
  from append_two_split [OF eq len]
  obtain D where "CHR 0x22 # V = (p @ CHR 0x22 # s1 @ CHR ''='' # s2 @ [CHR 0x22]) @ D" ..
  then have "CHR 0x22 # V = p @ CHR 0x22 # s1 @ CHR ''='' # s2 @ CHR 0x22 # D"
    by (simp only: append_assoc append_Cons append_Nil)
  from has_delimiter_intro [OF this s1 s2] assms(4) show False by (rule notE [rotated])
qed

lemma re_match_decl_line:
  assumes "LF \<notin> set K" and "LF \<notin> set V"
    and "\<forall>x \<in> set sp1. x = CHR '' ''" and "\<forall>x \<in> set sp2. x = CHR '' ''"
    and "\<not> has_delimiter (CHR 0x22 # V)"
  shows "re_match pattern (decl_line K sp1 sp2 V) = Some [K, V]"
proof -
  let ?rK = "CHR 0x22 # sp1 @ CHR ''='' # sp2 @ CHR 0x22 # V @ [CHR 0x22, CHR '';'']"
  let ?R1 = "Seq (Sym (Lit (CHR 0x22))) (Seq (Star (Lit CHR '' '')) (Seq (Sym (Lit CHR ''=''))
             (Seq (Star (Lit CHR '' '')) (Seq (Sym (Lit (CHR 0x22)))
               (Seq (Group (Star Dot)) (Seq (Sym (Lit (CHR 0x22))) (Sym (Lit CHR '';''))))))))"
  have "\<forall>x \<in> set K. cc Dot x" using assms(1) by auto
  then obtain xs ys where m: "matches (Group (Star Dot)) (K @ ?rK) = xs @ ([K], ?rK) # ys"
    and xs: "\<forall>m \<in> set xs. strict_suffix (snd m) ?rK"
    using matches_Group_Star_split [of K Dot ?rK] by blast
  have none: "\<forall>m \<in> set xs. matches ?R1 (snd m) = []"
    using xs after_key_none [OF _ assms(3,4,5)] by blast
  obtain zs where "matches ?R1 ?rK = ([V], []) # zs"
    using after_key_first [OF assms(3,4,2)] by blast
  then have "matches ?R1 (snd ([K], ?rK)) = ([V], []) # zs" by simp
  from matches_Seq_first [OF m none this]
  obtain rest where "matches (Seq (Group (Star Dot)) ?R1) (K @ ?rK) = ([K, V], []) # rest"
    by auto
  then have "matches pattern (decl_line K sp1 sp2 V) = ([K, V], []) # rest"
    unfolding pattern_def decl_line_def seqs.simps
    by (simp only: matches_Seq_Sym_Lit refl if_True)
  then show ?thesis by (simp add: re_match_def)
qed

lemma strip_surrounded:
  assumes "\<forall>c \<in> set ws1. isspace c" and "\<forall>c \<in> set ws2. isspace c"
    and "s \<noteq> []" and "\<not> isspace (hd s)" and "\<not> isspace (last s)"
  shows "strip (ws1 @ s @ ws2) = s"
proof -
  have "dropWhile isspace (ws1 @ s @ ws2) = s @ ws2"
    using assms(1,3,4) by (cases s) (simp_all add: dropWhile_append3)
  moreover have "dropWhile isspace (rev ws2 @ rev s) = rev s"
    using assms(2,3,5) by (cases s rule: rev_cases) (simp_all add: dropWhile_append3)
  ultimately show ?thesis by (simp add: strip_def)
qed

lemma line_decl_decl_line:
  assumes "LF \<notin> set K" and "LF \<notin> set V"
    and "\<forall>x \<in> set sp1. x = CHR '' ''" and "\<forall>x \<in> set sp2. x = CHR '' ''"
    and "\<not> has_delimiter (CHR 0x22 # V)"
    and "\<forall>c \<in> set ws1. isspace c" and "\<forall>c \<in> set ws2. isspace c"
  shows "line_decl (ws1 @ decl_line K sp1 sp2 V @ ws2) = Some (K, V)"
proof -
  have "strip (ws1 @ decl_line K sp1 sp2 V @ ws2) = decl_line K sp1 sp2 V"
    using assms(6,7) by (intro strip_surrounded) (simp_all add: decl_line_def isspace_def)
  then show ?thesis
    using re_match_decl_line [OF assms(1-5)] by (simp add: line_decl_def)
qed

section \<open>Properties of the resource parser\<close>

lemma update_absent: "k \<notin> set (map fst d) \<Longrightarrow> AList.update k v d = d @ [(k, v)]"
  by (induction d) auto

lemma parse_loop_step:
  "parse_loop ((i, line) # rest) d =
     (case line_decl line of
        None \<Rightarrow> parse_loop rest d
      | Some kv \<Rightarrow>
          if dict_contains (fst kv) d then parse_loop rest d
          else parse_loop rest (d @ [(fst kv, (i, snd kv))]))"
  by (auto simp: line_decl_def Let_def dict_setitem_def dict_contains_def update_absent
      split: option.splits)

lemma parse_loop_keeps:
  "map_of d k = Some x \<Longrightarrow> map_of (parse_loop items d) k = Some x"
proof (induction items arbitrary: d)
  case Nil
  then show ?case by simp
next
  case (Cons a items)
  obtain i line where a: "a = (i, line)" by (cases a)
  show ?case
    unfolding a parse_loop_step
    using Cons.prems by (auto split: option.splits intro!: Cons.IH simp: map_of_append)
qed

lemma parse_loop_sound:
  "(k, (i, v)) \<in> set (parse_loop items d) \<Longrightarrow>
     (k, (i, v)) \<in> set d \<or> (\<exists>line. (i, line) \<in> set items \<and> line_decl line = Some (k, v))"
proof (induction items arbitrary: d)
  case Nil
  then show ?case by simp
next
  case (Cons a items)
  obtain j line where a: "a = (j, line)" by (cases a)
  from Cons.prems show ?case
    unfolding a parse_loop_step
    by (auto split: option.splits if_splits dest!: Cons.IH)
qed

lemma parse_loop_distinct:
  "distinct (map fst d) \<Longrightarrow> distinct (map fst (parse_loop items d))"
proof (induction items arbitrary: d)
  case Nil
  then show ?case by simp
next
  case (Cons a items)
  obtain j line where a: "a = (j, line)" by (cases a)
  show ?case
  proof (cases "line_decl line")
    case None
    with Cons show ?thesis by (simp add: a parse_loop_step del: parse_loop.simps)
  next
    case (Some kv)
    show ?thesis
    proof (cases "dict_contains (fst kv) d")
      case True
      with Some Cons show ?thesis by (simp add: a parse_loop_step del: parse_loop.simps)
    next
      case False
      then have "distinct (map fst (d @ [(fst kv, (j, snd kv))]))"
        using Cons.prems by (simp add: dict_contains_def)
      from Cons.IH [OF this] Some False show ?thesis
        by (simp add: a parse_loop_step del: parse_loop.simps)
    qed
  qed
qed

lemma parse_loop_wf: "dict_wf d \<Longrightarrow> dict_wf (parse_loop items d)"
  unfolding dict_wf_def by (rule parse_loop_distinct)

lemma parse_loop_first:
  assumes "\<forall>p \<in> set pre. map_option fst (line_decl (snd p)) \<noteq> Some k"
    and "line_decl line = Some (k, v)"
    and "map_of d k = None"
  shows "map_of (parse_loop (pre @ (i, line) # post) d) k = Some (i, v)"
  using assms
proof (induction pre arbitrary: d)
  case Nil
  have nc: "\<not> dict_contains k d" using Nil.prems(3)
    by (simp add: dict_contains_def map_of_eq_None_iff)
  have "map_of (d @ [(k, (i, v))]) k = Some (i, v)"
    using Nil.prems(3) by (simp add: map_of_append map_add_def)
  then have "map_of (parse_loop post (d @ [(k, (i, v))])) k = Some (i, v)"
    by (rule parse_loop_keeps)
  then show ?case using Nil.prems(2) nc
    by (simp add: parse_loop_step del: parse_loop.simps)
next
  case (Cons a pre)
  obtain j l where a: "a = (j, l)" by (cases a)
  have nk: "map_option fst (line_decl l) \<noteq> Some k" using Cons.prems(1) a by simp
  have rest: "\<forall>p \<in> set pre. map_option fst (line_decl (snd p)) \<noteq> Some k"
    using Cons.prems(1) by simp
  show ?case
  proof (cases "line_decl l")
    case None
    then show ?thesis
      using Cons.IH [OF rest Cons.prems(2,3)] by (simp add: a parse_loop_step del: parse_loop.simps)
  next
    case (Some kv)
    with nk have "fst kv \<noteq> k" by auto
    then have "map_of (d @ [(fst kv, (j, snd kv))]) k = None"
      using Cons.prems(3) by (simp add: map_of_append)
    from Cons.IH [OF rest Cons.prems(2) this] Cons.IH [OF rest Cons.prems(2,3)] Some
    show ?thesis by (simp add: a parse_loop_step del: parse_loop.simps)
  qed
qed

lemma enumerate_split:
  "i < length ls \<Longrightarrow>
     enumerate n ls = enumerate n (take i ls) @ (n + i, ls ! i) # enumerate (n + Suc i) (drop (Suc i) ls)"
proof -
  assume i: "i < length ls"
  then have "ls = take i ls @ ls ! i # drop (Suc i) ls" by (simp add: id_take_nth_drop)
  then have "enumerate n ls = enumerate n (take i ls @ ls ! i # drop (Suc i) ls)" by simp
  also have "\<dots> = enumerate n (take i ls) @ (n + i, ls ! i) # enumerate (n + Suc i) (drop (Suc i) ls)"
    using i by (simp add: enumerate_append_eq min_def)
  finally show ?thesis .
qed

lemma parse_lines_first:
  assumes "i < length ls" and "line_decl (ls ! i) = Some (k, v)"
    and "\<forall>j < i. map_option fst (line_decl (ls ! j)) \<noteq> Some k"
  shows "map_of (parse_lines ls) k = Some (i, v)"
proof -
  have "\<forall>p \<in> set (enumerate 0 (take i ls)). map_option fst (line_decl (snd p)) \<noteq> Some k"
    using assms(1,3) by (auto simp: in_set_enumerate_eq)
  from parse_loop_first [OF this assms(2), of "[]" i "enumerate (Suc i) (drop (Suc i) ls)"]
  show ?thesis
    using enumerate_split [OF assms(1), of 0] by (simp add: parse_lines_def)
qed

lemma parse_lines_sound:
  assumes "(k, (i, v)) \<in> set (parse_lines ls)"
  shows "i < length ls \<and> line_decl (ls ! i) = Some (k, v)"
proof -
  from parse_loop_sound [OF assms [unfolded parse_lines_def]]
  obtain line where "(i, line) \<in> set (enumerate 0 ls)" "line_decl line = Some (k, v)"
    by auto
  then show ?thesis by (auto simp: in_set_enumerate_eq)
qed

lemma parse_lines_wf: "dict_wf (parse_lines ls)"
  unfolding parse_lines_def by (rule parse_loop_wf) (simp add: dict_wf_def)

lemma readlines_acc_LF:
  "LF \<notin> set cur \<Longrightarrow> \<forall>l \<in> set (readlines_acc cur s). LF \<notin> set (butlast l)"
proof (induction s arbitrary: cur)
  case Nil
  then show ?case by (auto dest: in_set_butlastD)
next
  case (Cons c s)
  show ?case
  proof (cases "c = LF")
    case True
    have "\<forall>l \<in> set (readlines_acc [] s). LF \<notin> set (butlast l)"
      by (rule Cons.IH) simp
    with True Cons.prems show ?thesis by simp
  next
    case False
    have "\<forall>l \<in> set (readlines_acc (cur @ [c]) s). LF \<notin> set (butlast l)"
      using False Cons.prems by (intro Cons.IH) simp
    with False show ?thesis by simp
  qed
qed

lemma readlines_LF: "l \<in> set (readlines text) \<Longrightarrow> LF \<notin> set (butlast l)"
  unfolding readlines_def using readlines_acc_LF [of "[]"] by simp

lemma set_mid_butlast: "B \<noteq> [] \<Longrightarrow> set K \<subseteq> set (butlast (A @ K @ B))"
  by (auto simp: butlast_append)

text \<open>
  What the pattern of the parser accepts, as a relation between the text, the groups and
  the rest: the text begins with a declaration, and anything may follow it.
\<close>

lemma group_star_iff:
  "(g, r) \<in> set (matches (Seq (Group (Star D)) X) s) \<longleftrightarrow>
     (\<exists>k r1 g2. s = k @ r1 \<and> (\<forall>x \<in> set k. cc D x) \<and> (g2, r) \<in> set (matches X r1) \<and> g = k # g2)"
  (is "?L \<longleftrightarrow> ?R")
proof
  assume ?L
  then obtain g1 r1 g2 where 1: "(g1, r1) \<in> set (matches (Group (Star D)) s)"
    and 2: "(g2, r) \<in> set (matches X r1)" and g: "g = g1 @ g2"
    unfolding matches_Seq_iff by blast
  from 1 obtain w where w: "s = w @ r1" "\<forall>x \<in> set w. cc D x"
    and g1: "g1 = [take (length s - length r1) s]"
    unfolding matches_Group_iff matches_Star_iff by blast
  from w(1) have "take (length s - length r1) s = w" by simp
  with g g1 have "g = w # g2" by simp
  with w 2 show ?R by blast
next
  assume ?R
  then obtain k r1 g2 where k: "s = k @ r1" "\<forall>x \<in> set k. cc D x"
    "(g2, r) \<in> set (matches X r1)" "g = k # g2" by blast
  from k(1) have t: "take (length s - length r1) s = k" by simp
  have "([], r1) \<in> set (matches (Star D) s)"
    unfolding matches_Star_iff using k(1,2) by blast
  then have "([k], r1) \<in> set (matches (Group (Star D)) s)"
    unfolding matches_Group_iff using t by blast
  with k(3,4) have "([k], r1) \<in> set (matches (Group (Star D)) s)
      \<and> (g2, r) \<in> set (matches X r1) \<and> g = [k] @ g2" by simp
  then show ?L unfolding matches_Seq_iff
    by (intro exI [of _ "[k]"] exI [of _ r1] exI [of _ g2])
qed

lemma sym_seq_iff:
  "(g, r) \<in> set (matches (Seq (Sym (Lit c)) X) s) \<longleftrightarrow> (\<exists>t. s = c # t \<and> (g, r) \<in> set (matches X t))"
  unfolding matches_Seq_iff matches_Sym_iff by auto

lemma star_lit_seq_iff:
  "(g, r) \<in> set (matches (Seq (Star (Lit c)) X) s) \<longleftrightarrow>
     (\<exists>w t. s = w @ t \<and> (\<forall>x \<in> set w. x = c) \<and> (g, r) \<in> set (matches X t))"
  unfolding matches_Seq_iff matches_Star_iff by auto

lemma declaration_shape_iff:
  "(g, r) \<in> set (matches
      (Seq (Sym (Lit q)) (Seq (Group (Star D)) (Seq (Sym (Lit q)) (Seq (Star (Lit sp))
        (Seq (Sym (Lit eq)) (Seq (Star (Lit sp)) (Seq (Sym (Lit q)) (Seq (Group (Star D))
          (Seq (Sym (Lit q)) (Sym (Lit semi)))))))))))  s)
   \<longleftrightarrow> (\<exists>k s1 s2 v. s = q # k @ q # s1 @ eq # s2 @ q # v @ q # semi # r \<and> g = [k, v]
          \<and> (\<forall>x \<in> set k. cc D x) \<and> (\<forall>x \<in> set v. cc D x)
          \<and> (\<forall>x \<in> set s1. x = sp) \<and> (\<forall>x \<in> set s2. x = sp))"
  unfolding sym_seq_iff group_star_iff star_lit_seq_iff matches_Sym_iff cc.simps
  by (auto; blast)

lemma ball_neq_iff: "(\<forall>x \<in> set k. x \<noteq> c) \<longleftrightarrow> c \<notin> set k"
  by auto

lemma matches_pattern_iff:
  "(g, r) \<in> set (matches pattern s) \<longleftrightarrow>
     (\<exists>k s1 s2 v. s = decl_line k s1 s2 v @ r \<and> g = [k, v]
        \<and> LF \<notin> set k \<and> LF \<notin> set v
        \<and> (\<forall>x \<in> set s1. x = CHR '' '') \<and> (\<forall>x \<in> set s2. x = CHR '' ''))"
proof -
  have eq: "matches pattern s = matches
      (Seq (Sym (Lit (CHR 0x22))) (Seq (Group (Star Dot)) (Seq (Sym (Lit (CHR 0x22)))
        (Seq (Star (Lit CHR '' '')) (Seq (Sym (Lit CHR ''='')) (Seq (Star (Lit CHR '' ''))
          (Seq (Sym (Lit (CHR 0x22))) (Seq (Group (Star Dot))
            (Seq (Sym (Lit (CHR 0x22))) (Sym (Lit CHR '';''))))))))))) s"
    by (simp only: pattern_def seqs.simps)
  show ?thesis
    unfolding eq declaration_shape_iff decl_line_def cc.simps ball_neq_iff
    by (simp only: append_Cons append_Nil append_assoc)
qed

text \<open>
  \<^verbatim>\<open>pattern.match\<close> returns \<^verbatim>\<open>None\<close> exactly on the texts that do not begin with a
  declaration.
\<close>

lemma re_match_pattern_None_iff:
  "re_match pattern s = None \<longleftrightarrow>
     \<not> (\<exists>k s1 s2 v r. s = decl_line k s1 s2 v @ r \<and> LF \<notin> set k \<and> LF \<notin> set v
           \<and> (\<forall>x \<in> set s1. x = CHR '' '') \<and> (\<forall>x \<in> set s2. x = CHR '' ''))"
proof
  assume "re_match pattern s = None"
  then have e: "matches pattern s = []" by (simp only: re_match_None_iff)
  show "\<not> (\<exists>k s1 s2 v r. s = decl_line k s1 s2 v @ r \<and> LF \<notin> set k \<and> LF \<notin> set v
           \<and> (\<forall>x \<in> set s1. x = CHR '' '') \<and> (\<forall>x \<in> set s2. x = CHR '' ''))"
  proof
    assume "\<exists>k s1 s2 v r. s = decl_line k s1 s2 v @ r \<and> LF \<notin> set k \<and> LF \<notin> set v
           \<and> (\<forall>x \<in> set s1. x = CHR '' '') \<and> (\<forall>x \<in> set s2. x = CHR '' '')"
    then obtain k s1 s2 v r where "s = decl_line k s1 s2 v @ r \<and> [k, v] = [k, v]
        \<and> LF \<notin> set k \<and> LF \<notin> set v
        \<and> (\<forall>x \<in> set s1. x = CHR '' '') \<and> (\<forall>x \<in> set s2. x = CHR '' '')"
      by auto
    then have "([k, v], r) \<in> set (matches pattern s)"
      unfolding matches_pattern_iff by (intro exI [of _ k] exI [of _ s1] exI [of _ s2] exI [of _ v])
    with e show False by simp
  qed
next
  assume n: "\<not> (\<exists>k s1 s2 v r. s = decl_line k s1 s2 v @ r \<and> LF \<notin> set k \<and> LF \<notin> set v
           \<and> (\<forall>x \<in> set s1. x = CHR '' '') \<and> (\<forall>x \<in> set s2. x = CHR '' ''))"
  have "matches pattern s = []"
  proof (rule ccontr)
    assume "matches pattern s \<noteq> []"
    then obtain g r where "(g, r) \<in> set (matches pattern s)"
      using nonempty_has_pair by blast
    then have "\<exists>k s1 s2 v. s = decl_line k s1 s2 v @ r \<and> g = [k, v]
        \<and> LF \<notin> set k \<and> LF \<notin> set v
        \<and> (\<forall>x \<in> set s1. x = CHR '' '') \<and> (\<forall>x \<in> set s2. x = CHR '' '')"
      by (simp only: matches_pattern_iff)
    then have "\<exists>k s1 s2 v r. s = decl_line k s1 s2 v @ r \<and> LF \<notin> set k \<and> LF \<notin> set v
           \<and> (\<forall>x \<in> set s1. x = CHR '' '') \<and> (\<forall>x \<in> set s2. x = CHR '' '')"
      by (elim exE conjE) (intro exI conjI)
    with n show False by (rule notE)
  qed
  then show "re_match pattern s = None" by (simp only: re_match_None_iff)
qed

text \<open>
  The first group is greedy: when the value contains the delimiter, the key found extends
  to the last delimiter of the line.
\<close>

lemma delimiter_in_value_moves_key:
  \<open>''"a" = "b" = "c";'' = decl_line ''a'' '' '' '' '' ''b" = "c''
   \<and> has_delimiter (CHR 0x22 # ''b" = "c'')
   \<and> parse_lines [''"a" = "b" = "c";''] = [(''a" = "b'', (0, ''c''))]\<close>
  by code_simp

text \<open>
  C5, amended. Let line \<open>i\<close> of a file that is read and decoded be a declaration: a quoted
  key \<open>K\<close>, any number of space characters (and no other character), an
  equals sign, again any number of space characters, a quoted value \<open>V\<close> and a semicolon,
  with any whitespace before and after, where \<open>V\<close> is well formed in that the delimiter \<^verbatim>\<open>" *= *"\<close> does not occur in
  it (nor starts at its opening quote), and let no earlier line declare \<open>K\<close>. Then
  \<^verbatim>\<open>parse\<close> succeeds and maps \<open>K\<close> to \<open>(i, V)\<close>. The key may hold any characters.
\<close>
theorem parse_recovers_declaration:
  assumes "fs filepath = Some (Decodes text)"
    and "i < length (readlines text)"
    and "readlines text ! i = ws1 @ decl_line K sp1 sp2 V @ ws2"
    and "\<forall>c \<in> set ws1. isspace c" and "\<forall>c \<in> set ws2. isspace c"
    and "\<forall>c \<in> set sp1. c = CHR '' ''" and "\<forall>c \<in> set sp2. c = CHR '' ''"
    and "\<not> has_delimiter (CHR 0x22 # V)"
    and "\<forall>j < i. map_option fst (line_decl (readlines text ! j)) \<noteq> Some K"
  shows "\<exists>lines. parse fs filepath = Inr lines \<and> map_of lines K = Some (i, V)"
proof -
  let ?line = "readlines text ! i"
  have "?line \<in> set (readlines text)" using assms(2) by simp
  then have nl: "LF \<notin> set (butlast ?line)" by (rule readlines_LF)
  have "?line = (ws1 @ [CHR 0x22]) @ K
                  @ (CHR 0x22 # sp1 @ CHR ''='' # sp2 @ CHR 0x22 # V @ [CHR 0x22, CHR '';''] @ ws2)"
    by (simp add: assms(3) decl_line_def)
  then have "set K \<subseteq> set (butlast ?line)"
    using set_mid_butlast [of "CHR 0x22 # sp1 @ CHR ''='' # sp2 @ CHR 0x22 # V @ [CHR 0x22, CHR '';''] @ ws2" K "ws1 @ [CHR 0x22]"]
    by simp
  with nl have K: "LF \<notin> set K" by blast
  have "?line = (ws1 @ CHR 0x22 # K @ CHR 0x22 # sp1 @ CHR ''='' # sp2 @ [CHR 0x22]) @ V
                  @ ([CHR 0x22, CHR '';''] @ ws2)"
    by (simp add: assms(3) decl_line_def)
  then have "set V \<subseteq> set (butlast ?line)"
    using set_mid_butlast [of "[CHR 0x22, CHR '';''] @ ws2" V
        "ws1 @ CHR 0x22 # K @ CHR 0x22 # sp1 @ CHR ''='' # sp2 @ [CHR 0x22]"]
    by simp
  with nl have V: "LF \<notin> set V" by blast
  have "line_decl ?line = Some (K, V)"
    unfolding assms(3) using K V assms(6,7,8,4,5) by (rule line_decl_decl_line)
  from parse_lines_first [OF assms(2) this assms(9)]
  show ?thesis by (simp add: parse_def assms(1))
qed

text \<open>
  C6. When two lines \<open>i < j\<close> of a readable file match with the same key and \<open>i\<close> is the
  earliest line with that key, \<^verbatim>\<open>parse\<close> succeeds, the key is mapped to the line
  number and value of line \<open>i\<close>, this is its only entry, and no entry of the result comes
  from line \<open>j\<close>.
\<close>
theorem parse_keeps_first_occurrence:
  assumes "fs filepath = Some (Decodes text)"
    and "i < j" and "j < length (readlines text)"
    and "line_decl (readlines text ! i) = Some (k, vi)"
    and "line_decl (readlines text ! j) = Some (k, vj)"
    and "\<forall>m < i. map_option fst (line_decl (readlines text ! m)) \<noteq> Some k"
  shows "\<exists>lines. parse fs filepath = Inr lines
           \<and> map_of lines k = Some (i, vi)
           \<and> (\<forall>d. (k, d) \<in> set lines \<longrightarrow> d = (i, vi))
           \<and> (\<forall>k' d. (k', d) \<in> set lines \<longrightarrow> fst d \<noteq> j)"
proof -
  let ?ls = "readlines text"
  let ?lines = "parse_lines ?ls"
  have i: "i < length ?ls" using assms(2,3) by simp
  have 1: "map_of ?lines k = Some (i, vi)"
    using i assms(4,6) by (rule parse_lines_first)
  have d: "distinct (map fst ?lines)" using parse_lines_wf [of ?ls] by (simp add: dict_wf_def)
  have 2: "\<forall>d. (k, d) \<in> set ?lines \<longrightarrow> d = (i, vi)"
  proof (intro allI impI)
    fix d' assume "(k, d') \<in> set ?lines"
    with d have "map_of ?lines k = Some d'" by (rule map_of_is_SomeI)
    with 1 show "d' = (i, vi)" by simp
  qed
  have 3: "\<forall>k' d. (k', d) \<in> set ?lines \<longrightarrow> fst d \<noteq> j"
  proof (intro allI impI notI)
    fix k' d assume in_lines: "(k', d) \<in> set ?lines" and "fst d = j"
    then obtain v where "(k', (j, v)) \<in> set ?lines" by (cases d) auto
    moreover from parse_lines_sound [OF this] assms(5) have "k' = k" by simp
    ultimately have "(j, v) = (i, vi)" using 2 by blast
    with assms(2) show False by simp
  qed
  from 1 2 3 show ?thesis by (simp add: parse_def assms(1))
qed

text \<open>
  C7, amended. \<^verbatim>\<open>parse\<close> fails only when the file cannot be opened or read
  (\<^verbatim>\<open>OSError\<close>) or when its bytes are not valid UTF-8 (\<^verbatim>\<open>UnicodeDecodeError\<close>,
  which is not an I/O error). On a file that is read and decoded it returns a mapping to
  which no line contributes whose trimmed text has no
  match of the pattern at its start (\<^verbatim>\<open>pattern.match\<close> returns \<^verbatim>\<open>None\<close>): such a
  line, blank or not, is skipped. The match is anchored at the start only, so text after
  the closing \<^verbatim>\<open>";\<close> does not make a line unmatched.
\<close>
theorem parse_skips_unmatched_lines:
  "(\<forall>e. parse fs filepath = Inl e \<longrightarrow>
        (fs filepath = None \<and> e = OSError)
        \<or> (fs filepath = Some Undecodable \<and> e = UnicodeDecodeError))
   \<and> (\<forall>text. fs filepath = Some (Decodes text) \<longrightarrow>
        (\<exists>lines. parse fs filepath = Inr lines
           \<and> (\<forall>i < length (readlines text).
                 re_match pattern (strip (readlines text ! i)) = None
                 \<longrightarrow> (\<forall>k d. (k, d) \<in> set lines \<longrightarrow> fst d \<noteq> i))))"
proof (intro conjI allI impI)
  fix e assume "parse fs filepath = Inl e"
  then show "(fs filepath = None \<and> e = OSError)
        \<or> (fs filepath = Some Undecodable \<and> e = UnicodeDecodeError)"
    by (auto simp: parse_def split: option.splits file_state.splits)
next
  fix content assume t: "fs filepath = Some (Decodes content)"
  have "\<forall>i < length (readlines content).
          re_match pattern (strip (readlines content ! i)) = None
          \<longrightarrow> (\<forall>k d. (k, d) \<in> set (parse_lines (readlines content)) \<longrightarrow> fst d \<noteq> i)"
  proof (intro allI impI notI)
    fix i k d
    assume nm: "re_match pattern (strip (readlines content ! i)) = None"
      and "(k, d) \<in> set (parse_lines (readlines content))" and "fst d = i"
    then obtain v where "(k, (i, v)) \<in> set (parse_lines (readlines content))" by (cases d) auto
    from parse_lines_sound [OF this] nm
    show False by (simp add: line_decl_def)
  qed
  then show "\<exists>lines. parse fs filepath = Inr lines
           \<and> (\<forall>i < length (readlines content).
                 re_match pattern (strip (readlines content ! i)) = None
                 \<longrightarrow> (\<forall>k d. (k, d) \<in> set lines \<longrightarrow> fst d \<noteq> i))"
    by (simp add: parse_def t)
qed

text \<open>
  C7, as stated, fails: line 4 of the example file has text after the closing \<^verbatim>\<open>";\<close>,
  so the trimmed line is not of the form of the grammar, yet it is not skipped: it
  contributes the entry \<open>x \<mapsto> (4, y)\<close>. Moreover a file that is opened and read without
  an I/O error, but whose bytes are not valid UTF-8, makes \<^verbatim>\<open>parse\<close> fail, with
  \<^verbatim>\<open>UnicodeDecodeError\<close>.
\<close>
theorem trailing_text_counterexample:
  \<open>readlines example_text ! 4 = ''"x" = "y"; // note\<newline>''
   \<and> strip (readlines example_text ! 4) \<noteq> []
   \<and> \<not> conforms_to_grammar (strip (readlines example_text ! 4))
   \<and> parse example_fs ''en.lproj/Localizable.strings''
       = Inr [(''hi'', (0, ''Hello'')), (''bye'', (1, ''Bye'')), (''x'', (4, ''y''))]
   \<and> example_fs ''xx.lproj/Localizable.strings'' = Some Undecodable
   \<and> parse example_fs ''xx.lproj/Localizable.strings'' = Inl UnicodeDecodeError\<close>
  by code_simp

text \<open>
  C5, as stated, fails: the claim allows any spacing around the equals sign, but the pattern
  accepts only the space character there. A line that is a declaration with a tab on each
  side of the equals sign has no match, and its key gets no entry.
\<close>
theorem tab_spacing_counterexample:
  "example_fs ''de.lproj/Localizable.strings'' = Some (Decodes example_tab_text)
   \<and> readlines example_tab_text ! 0 = decl_line ''k'' [CHR 0x09] [CHR 0x09] ''v'' @ [CHR 0x0A]
   \<and> isspace (CHR 0x09)
   \<and> \<not> has_delimiter (CHR 0x22 # ''v'')
   \<and> parse example_fs ''de.lproj/Localizable.strings'' = Inr []"
  by code_simp

text \<open>
  The second line of the example file, with two spaces at every place where spaces are
  allowed, is recovered as \<open>bye \<mapsto> (1, Bye)\<close>.
\<close>
theorem parse_recovers_declaration_witness:
  "example_fs ''en.lproj/Localizable.strings'' = Some (Decodes example_text)
   \<and> 1 < length (readlines example_text)
   \<and> readlines example_text ! 1 = ''  '' @ decl_line ''bye'' ''  '' ''  '' ''Bye'' @ ''  \<newline>''
   \<and> \<not> has_delimiter (CHR 0x22 # ''Bye'')
   \<and> map_option fst (line_decl (readlines example_text ! 0)) \<noteq> Some ''bye''
   \<and> (\<exists>lines. parse example_fs ''en.lproj/Localizable.strings'' = Inr lines
          \<and> map_of lines ''bye'' = Some (1, ''Bye''))"
proof -
  have h1: "example_fs ''en.lproj/Localizable.strings'' = Some (Decodes example_text)"
    by (simp add: example_fs_def)
  have h2: "1 < length (readlines example_text)" by code_simp
  have h3: "readlines example_text ! 1
              = ''  '' @ decl_line ''bye'' ''  '' ''  '' ''Bye'' @ ''  \<newline>''"
    by code_simp
  have h4: "\<forall>c \<in> set ''  ''. isspace c" by code_simp
  have h5: "\<forall>c \<in> set ''  \<newline>''. isspace c" by code_simp
  have h6: "\<forall>c \<in> set ''  ''. c = CHR '' ''" by simp
  have h8: "\<not> has_delimiter (CHR 0x22 # ''Bye'')" by code_simp
  have h0: "map_option fst (line_decl (readlines example_text ! 0)) \<noteq> Some ''bye''" by code_simp
  then have h9: "\<forall>j < 1. map_option fst (line_decl (readlines example_text ! j)) \<noteq> Some ''bye''"
    by simp
  have c: "\<exists>lines. parse example_fs ''en.lproj/Localizable.strings'' = Inr lines
          \<and> map_of lines ''bye'' = Some (1, ''Bye'')"
    by (rule parse_recovers_declaration
        [of example_fs "''en.lproj/Localizable.strings''" example_text 1
            "''  ''" "''bye''" "''  ''" "''  ''" "''Bye''" "''  \<newline>''",
         OF h1 h2 h3 h4 h5 h6 h6 h8 h9])
  show ?thesis by (intro conjI h1 h2 h3 h8 h0 c)
qed

text \<open>
  In the example file the key \<open>hi\<close> is declared on lines 0 and 2; line 0 wins.
\<close>
theorem parse_keeps_first_occurrence_witness:
  "example_fs ''en.lproj/Localizable.strings'' = Some (Decodes example_text)
   \<and> (0::nat) < 2 \<and> 2 < length (readlines example_text)
   \<and> line_decl (readlines example_text ! 0) = Some (''hi'', ''Hello'')
   \<and> line_decl (readlines example_text ! 2) = Some (''hi'', ''Again'')
   \<and> (\<exists>lines. parse example_fs ''en.lproj/Localizable.strings'' = Inr lines
          \<and> map_of lines ''hi'' = Some (0, ''Hello'')
          \<and> (\<forall>d. (''hi'', d) \<in> set lines \<longrightarrow> d = (0, ''Hello''))
          \<and> (\<forall>k' d. (k', d) \<in> set lines \<longrightarrow> fst d \<noteq> 2))"
proof -
  have h1: "example_fs ''en.lproj/Localizable.strings'' = Some (Decodes example_text)"
    by (simp add: example_fs_def)
  have h2: "(0::nat) < 2" by simp
  have h3: "2 < length (readlines example_text)" by code_simp
  have h4: "line_decl (readlines example_text ! 0) = Some (''hi'', ''Hello'')" by code_simp
  have h5: "line_decl (readlines example_text ! 2) = Some (''hi'', ''Again'')" by code_simp
  have h6: "\<forall>m < 0. map_option fst (line_decl (readlines example_text ! m)) \<noteq> Some ''hi''"
    by simp
  have c: "\<exists>lines. parse example_fs ''en.lproj/Localizable.strings'' = Inr lines
          \<and> map_of lines ''hi'' = Some (0, ''Hello'')
          \<and> (\<forall>d. (''hi'', d) \<in> set lines \<longrightarrow> d = (0, ''Hello''))
          \<and> (\<forall>k' d. (k', d) \<in> set lines \<longrightarrow> fst d \<noteq> 2)"
    by (rule parse_keeps_first_occurrence
        [of example_fs "''en.lproj/Localizable.strings''" example_text 0 2
            "''hi''" "''Hello''" "''Again''",
         OF h1 h2 h3 h4 h5 h6])
  show ?thesis by (intro conjI h1 h2 h3 h4 h5 c)
qed

text \<open>
  Line 3 of the example file, \<^verbatim>\<open>junk\<close>, has no match and leaves no entry.
\<close>
theorem parse_skips_unmatched_lines_witness:
  "example_fs ''en.lproj/Localizable.strings'' = Some (Decodes example_text)
   \<and> 3 < length (readlines example_text)
   \<and> readlines example_text ! 3 = ''junk\<newline>''
   \<and> re_match pattern (strip (readlines example_text ! 3)) = None
   \<and> (\<exists>lines. parse example_fs ''en.lproj/Localizable.strings'' = Inr lines
          \<and> (\<forall>k d. (k, d) \<in> set lines \<longrightarrow> fst d \<noteq> 3))"
proof -
  have h1: "example_fs ''en.lproj/Localizable.strings'' = Some (Decodes example_text)"
    by (simp add: example_fs_def)
  have h2: "3 < length (readlines example_text)" by code_simp
  have h3: "readlines example_text ! 3 = ''junk\<newline>''" by code_simp
  have h4: "re_match pattern (strip (readlines example_text ! 3)) = None" by code_simp
  from parse_skips_unmatched_lines [of example_fs "''en.lproj/Localizable.strings''"] h1
  obtain lines where l: "parse example_fs ''en.lproj/Localizable.strings'' = Inr lines"
    and s: "\<forall>i < length (readlines example_text).
              re_match pattern (strip (readlines example_text ! i)) = None
              \<longrightarrow> (\<forall>k d. (k, d) \<in> set lines \<longrightarrow> fst d \<noteq> i)"
    by metis
  have "\<forall>k d. (k, d) \<in> set lines \<longrightarrow> fst d \<noteq> 3"
    by (intro allI impI) (rule s [rule_format, OF h2 h4])
  with l have c: "\<exists>lines. parse example_fs ''en.lproj/Localizable.strings'' = Inr lines
          \<and> (\<forall>k d. (k, d) \<in> set lines \<longrightarrow> fst d \<noteq> 3)" by (intro exI conjI)
  show ?thesis by (intro conjI h1 h2 h3 h4 c)
qed

section \<open>Properties of the language resolver\<close>

lemma suffix_lit_iff:
  "(g, r) \<in> set (matches (seqs (lits ''.lproj'')) t) \<longleftrightarrow> t = ''.lproj'' @ r \<and> g = []"
  by (auto simp add: lits_def matches_Seq_iff matches_Sym_iff simp del: matches.simps)

lemma code_part_iff:
  "(g, r) \<in> set (matches (Seq (Rep lo 2 3) (Opt (Seq (Sym (Lit h)) (Rep le 2 2)))) t)
   \<longleftrightarrow> g = [] \<and> (\<exists>a b. t = a @ b @ r \<and> 2 \<le> length a \<and> length a \<le> 3
                        \<and> (\<forall>c \<in> set a. cc lo c)
                        \<and> (b = [] \<or> (\<exists>c. b = h # c \<and> length c = 2
                                          \<and> (\<forall>x \<in> set c. cc le x))))"
  (is "?L \<longleftrightarrow> ?R")
proof
  assume ?L
  then obtain ra gb where a: "\<exists>w. t = w @ ra \<and> 2 \<le> length w \<and> length w \<le> 3 \<and> (\<forall>x \<in> set w. cc lo x)"
    and b: "(gb, r) \<in> set (matches (Opt (Seq (Sym (Lit h)) (Rep le 2 2))) ra)"
    and g: "g = gb"
    by (auto simp only: matches_Seq_iff matches_Rep_iff append_Nil)
  from a obtain w where w: "t = w @ ra" "2 \<le> length w" "length w \<le> 3" "\<forall>x \<in> set w. cc lo x"
    by blast
  from b consider "gb = []" "r = ra"
    | c where "gb = []" "ra = h # c @ r" "length c = 2" "\<forall>x \<in> set c. cc le x"
    by (auto simp only: matches_Opt_iff matches_Seq_iff matches_Sym_iff matches_Rep_iff
        cc.simps append_Nil append_Cons)
  then show ?R
  proof cases
    case 1
    with w g have "t = w @ [] @ r" by simp
    with w 1 g show ?thesis by blast
  next
    case 2
    with w have "t = w @ (h # c) @ r" by simp
    with w 2 g show ?thesis by blast
  qed
next
  assume ?R
  then obtain a b where g: "g = []" and t: "t = a @ b @ r" and a: "2 \<le> length a" "length a \<le> 3"
    "\<forall>c \<in> set a. cc lo c"
    and b: "b = [] \<or> (\<exists>c. b = h # c \<and> length c = 2 \<and> (\<forall>x \<in> set c. cc le x))"
    by blast
  have 1: "([], b @ r) \<in> set (matches (Rep lo 2 3) t)"
    unfolding matches_Rep_iff using t a by blast
  have 2: "([], r) \<in> set (matches (Opt (Seq (Sym (Lit h)) (Rep le 2 2))) (b @ r))"
  proof -
    from b consider "b = []" | c where "b = h # c" "length c = 2" "\<forall>x \<in> set c. cc le x"
      by blast
    then show ?thesis
    proof cases
      case 1
      then show ?thesis by (simp only: matches_Opt_iff) simp
    next
      case 2
      have "([], c @ r) \<in> set (matches (Sym (Lit h)) (b @ r))"
        unfolding matches_Sym_iff using 2 by simp
      moreover have "([], r) \<in> set (matches (Rep le 2 2) (c @ r))"
        unfolding matches_Rep_iff using 2 by auto
      ultimately have "([], r) \<in> set (matches (Seq (Sym (Lit h)) (Rep le 2 2)) (b @ r))"
        unfolding matches_Seq_iff by force
      then show ?thesis unfolding matches_Opt_iff by blast
    qed
  qed
  from 1 2 have "([] @ [], r) \<in> set (matches (Seq (Rep lo 2 3) (Opt (Seq (Sym (Lit h)) (Rep le 2 2)))) t)"
    unfolding matches_Seq_iff [of _ _ "Rep lo 2 3"] by blast
  with g show ?L by simp
qed

lemma group_code_iff:
  "(g, r) \<in> set (matches (Seq (Group (Seq (Rep lo 2 3) (Opt (Seq (Sym (Lit h)) (Rep le 2 2))))) T) t)
   \<longleftrightarrow> (\<exists>a b r1 g2. t = a @ b @ r1 \<and> (g2, r) \<in> set (matches T r1) \<and> g = (a @ b) # g2
          \<and> 2 \<le> length a \<and> length a \<le> 3 \<and> (\<forall>c \<in> set a. cc lo c)
          \<and> (b = [] \<or> (\<exists>c. b = h # c \<and> length c = 2 \<and> (\<forall>x \<in> set c. cc le x))))"
  (is "?L \<longleftrightarrow> ?R")
proof
  assume ?L
  then obtain g1 r1 g2 where 1: "(g1, r1) \<in> set (matches (Seq (Rep lo 2 3) (Opt (Seq (Sym (Lit h)) (Rep le 2 2)))) t)"
    and 2: "(g2, r) \<in> set (matches T r1)" and g: "g = (take (length t - length r1) t # g1) @ g2"
    unfolding matches_Seq_iff [of _ _ "Group _"] matches_Group_iff by blast
  from 1 [unfolded code_part_iff] obtain a b where ab: "g1 = []" "t = a @ b @ r1"
    "2 \<le> length a" "length a \<le> 3" "\<forall>c \<in> set a. cc lo c"
    "b = [] \<or> (\<exists>c. b = h # c \<and> length c = 2 \<and> (\<forall>x \<in> set c. cc le x))"
    by blast
  have "take (length t - length r1) t = a @ b" using ab(2) by simp
  with g ab(1) have "g = (a @ b) # g2" by simp
  with ab 2 show ?R by blast
next
  assume ?R
  then obtain a b r1 g2 where ab: "t = a @ b @ r1" "(g2, r) \<in> set (matches T r1)" "g = (a @ b) # g2"
    "2 \<le> length a" "length a \<le> 3" "\<forall>c \<in> set a. cc lo c"
    "b = [] \<or> (\<exists>c. b = h # c \<and> length c = 2 \<and> (\<forall>x \<in> set c. cc le x))"
    by blast
  then have "([], r1) \<in> set (matches (Seq (Rep lo 2 3) (Opt (Seq (Sym (Lit h)) (Rep le 2 2)))) t)"
    unfolding code_part_iff by blast
  moreover have "take (length t - length r1) t = a @ b" using ab(1) by simp
  ultimately have "((a @ b) # [], r1) \<in> set (matches (Group (Seq (Rep lo 2 3) (Opt (Seq (Sym (Lit h)) (Rep le 2 2))))) t)"
    unfolding matches_Group_iff by force
  with ab(2,3) have "([a @ b], r1) \<in> set (matches (Group (Seq (Rep lo 2 3) (Opt (Seq (Sym (Lit h)) (Rep le 2 2))))) t)
      \<and> (g2, r) \<in> set (matches T r1) \<and> g = [a @ b] @ g2"
    by simp
  then show ?L
    unfolding matches_Seq_iff [of _ _ "Group _"]
    by (intro exI [of _ "[a @ b]"] exI [of _ r1] exI [of _ g2])
qed

lemma prefix_before_char:
  assumes "x @ c # rest = u @ r" and "c \<notin> set u"
  shows "\<exists>y. x = u @ y"
proof -
  from assms(1) consider us where "x = u @ us" | us where "x @ us = u" "c # rest = us @ r"
    by (auto simp: append_eq_append_conv2)
  then show ?thesis
  proof cases
    case 1
    then show ?thesis by blast
  next
    case 2
    show ?thesis
    proof (cases us)
      case Nil
      with 2 show ?thesis by simp
    next
      case (Cons z zs)
      with 2 have "c \<in> set u" by auto
      with assms(2) show ?thesis by simp
    qed
  qed
qed

lemma same_prefix_before_char:
  assumes "u @ c # x = v @ c # y" and "c \<notin> set u" and "c \<notin> set v"
  shows "u = v"
proof -
  have "takeWhile (\<lambda>z. z \<noteq> c) (u @ c # x) = u"
    using assms(2) by (auto simp: takeWhile_tail takeWhile_eq_all_conv [THEN iffD2])
  moreover have "takeWhile (\<lambda>z. z \<noteq> c) (v @ c # y) = v"
    using assms(3) by (auto simp: takeWhile_tail takeWhile_eq_all_conv [THEN iffD2])
  ultimately show ?thesis using assms(1) by simp
qed

lemma str_in_append_left: "str_in sub x \<Longrightarrow> str_in sub (p @ x)"
  unfolding str_in_iff
proof -
  assume "\<exists>a b. x = a @ sub @ b"
  then obtain a b where "x = a @ sub @ b" by blast
  then have "p @ x = (p @ a) @ sub @ b" by simp
  then show "\<exists>a b. p @ x = a @ sub @ b" by blast
qed

lemma str_in_suffix: "suffix t s \<Longrightarrow> str_in sub t \<Longrightarrow> str_in sub s"
  by (auto simp: suffix_def str_in_append_left)

lemma group_code_lit_iff:
  assumes "\<And>g2 r r1. (g2, r) \<in> set (matches T r1) \<longleftrightarrow> r1 = L @ r \<and> g2 = []"
  shows "(g, r) \<in> set (matches (Seq (Group (Seq (Rep lo 2 3) (Opt (Seq (Sym (Lit h)) (Rep le 2 2))))) T) t)
   \<longleftrightarrow> (\<exists>a b. t = a @ b @ L @ r \<and> g = [a @ b]
          \<and> 2 \<le> length a \<and> length a \<le> 3 \<and> (\<forall>c \<in> set a. cc lo c)
          \<and> (b = [] \<or> (\<exists>c. b = h # c \<and> length c = 2 \<and> (\<forall>x \<in> set c. cc le x))))"
  unfolding group_code_iff assms by blast

lemma cc_lower: "cc (CRange CHR ''a'' CHR ''z'') c = is_lower c"
  by (simp add: is_lower_def)

lemma cc_letter: "cc (CUnion (CRange CHR ''a'' CHR ''z'') (CRange CHR ''A'' CHR ''Z'')) c = is_letter c"
  by (simp add: is_letter_def is_lower_def)


lemma code_sep_free:
  assumes "\<forall>c \<in> set a. cc lo c"
    and "b = [] \<or> (\<exists>c. b = h # c \<and> length c = 2 \<and> (\<forall>x \<in> set c. cc le x))"
    and "\<not> cc lo s" and "\<not> cc le s" and "h \<noteq> s"
  shows "s \<notin> set (a @ b)"
proof
  assume "s \<in> set (a @ b)"
  then consider "s \<in> set a" | "s \<in> set b" by auto
  then show False
  proof cases
    case 1
    with assms(1) have "cc lo s" by (rule bspec)
    with assms(3) show False by simp
  next
    case 2
    with assms(2) obtain c where c: "b = h # c" "\<forall>x \<in> set c. cc le x" by auto
    with 2 assms(5) have "s \<in> set c" by simp
    with c(2) have "cc le s" by (rule bspec)
    with assms(4) show False by simp
  qed
qed

lemma group_code_before_sep:
  assumes T: "\<And>g2 r r1. (g2, r) \<in> set (matches T r1) \<longleftrightarrow> r1 = L @ r \<and> g2 = []"
    and m: "matches (Seq (Group (Seq (Rep lo 2 3) (Opt (Seq (Sym (Lit h)) (Rep le 2 2))))) T)
              (x @ s # rest) \<noteq> []"
    and s: "\<not> cc lo s" "\<not> cc le s" "h \<noteq> s" "s \<notin> set L"
  shows "\<exists>y z. x = y @ L @ z"
proof -
  from m obtain g r where "(g, r) \<in> set (matches
      (Seq (Group (Seq (Rep lo 2 3) (Opt (Seq (Sym (Lit h)) (Rep le 2 2))))) T) (x @ s # rest))"
    using nonempty_has_pair by blast
  then obtain a b where t: "x @ s # rest = a @ b @ L @ r"
    and a: "\<forall>c \<in> set a. cc lo c"
    and b: "b = [] \<or> (\<exists>c. b = h # c \<and> length c = 2 \<and> (\<forall>x \<in> set c. cc le x))"
    unfolding group_code_lit_iff [of T L, OF T] by blast
  have "s \<notin> set (a @ b)" using a b s(1-3) by (rule code_sep_free)
  with s(4) have n: "s \<notin> set ((a @ b) @ L)" by simp
  from t have "x @ s # rest = ((a @ b) @ L) @ r" by simp
  from prefix_before_char [OF this n] obtain y where "x = ((a @ b) @ L) @ y" ..
  then have "x = (a @ b) @ L @ y" by simp
  then show ?thesis by blast
qed

lemma group_code_captures:
  assumes T: "\<And>g2 r r1. (g2, r) \<in> set (matches T r1) \<longleftrightarrow> r1 = (s # L) @ r \<and> g2 = []"
    and m: "(g, r) \<in> set (matches (Seq (Group (Seq (Rep lo 2 3) (Opt (Seq (Sym (Lit h)) (Rep le 2 2))))) T)
              (code @ (s # L) @ post))"
    and s: "\<not> cc lo s" "\<not> cc le s" "h \<noteq> s" "s \<notin> set code"
  shows "g = [code]"
proof -
  from m obtain a b where t: "code @ (s # L) @ post = a @ b @ (s # L) @ r"
    and g: "g = [a @ b]"
    and a: "\<forall>c \<in> set a. cc lo c"
    and b: "b = [] \<or> (\<exists>c. b = h # c \<and> length c = 2 \<and> (\<forall>x \<in> set c. cc le x))"
    unfolding group_code_lit_iff [of T "s # L", OF T] by blast
  have n: "s \<notin> set (a @ b)" using a b s(1-3) by (rule code_sep_free)
  from t have "(a @ b) @ s # (L @ r) = code @ s # (L @ post)" by simp
  then have "a @ b = code" using n s(4) by (rule same_prefix_before_char)
  with g show ?thesis by simp
qed

lemma group_code_matches:
  assumes T: "\<And>g2 r r1. (g2, r) \<in> set (matches T r1) \<longleftrightarrow> r1 = L @ r \<and> g2 = []"
    and "2 \<le> length a" "length a \<le> 3" "\<forall>c \<in> set a. cc lo c"
    and "b = [] \<or> (\<exists>c. b = h # c \<and> length c = 2 \<and> (\<forall>x \<in> set c. cc le x))"
  shows "([a @ b], post) \<in> set (matches
           (Seq (Group (Seq (Rep lo 2 3) (Opt (Seq (Sym (Lit h)) (Rep le 2 2))))) T)
           ((a @ b) @ L @ post))"
proof -
  have e: "(a @ b) @ L @ post = a @ b @ L @ post" by simp
  show ?thesis
    unfolding group_code_lit_iff [of T L, OF T]
    by (intro exI [of _ a] exI [of _ b] conjI e refl assms(2-))
qed

lemma re_match_unique:
  assumes "m \<in> set (matches r s)" and "\<And>g rest. (g, rest) \<in> set (matches r s) \<Longrightarrow> g = c"
  shows "re_match r s = Some c"
proof (cases "matches r s")
  case Nil
  with assms(1) show ?thesis by simp
next
  case (Cons m' ms)
  then have "(fst m', snd m') \<in> set (matches r s)" by simp
  then have "fst m' = c" by (rule assms(2))
  with Cons show ?thesis by (simp add: re_match_def)
qed


lemma lang_pattern_unfold:
  "matches lang_pattern t =
     matches (Seq (Group (Seq (Rep (CRange CHR ''a'' CHR ''z'') 2 3)
                 (Opt (Seq (Sym (Lit CHR ''-''))
                           (Rep (CUnion (CRange CHR ''a'' CHR ''z'') (CRange CHR ''A'' CHR ''Z'')) 2 2)))))
            (seqs (lits ''.lproj''))) t"
  by (simp only: lang_pattern_def lits_def list.map seqs.simps)


lemma lang_no_match_before_slash:
  assumes "matches lang_pattern (x @ CHR ''/'' # rest) \<noteq> []"
  shows "str_in ''.lproj'' x"
  unfolding str_in_iff
  by (rule group_code_before_sep [OF suffix_lit_iff assms [unfolded lang_pattern_unfold]])
     simp_all

lemma is_lang_code_split:
  assumes "is_lang_code code"
  shows "\<exists>a b. code = a @ b \<and> 2 \<le> length a \<and> length a \<le> 3 \<and> (\<forall>c \<in> set a. is_lower c)
           \<and> (b = [] \<or> (\<exists>c. b = CHR ''-'' # c \<and> length c = 2 \<and> (\<forall>x \<in> set c. is_letter x)))"
proof -
  from assms obtain n where n: "n = 2 \<or> n = 3" "length (take n code) = n"
    "\<forall>c \<in> set (take n code). is_lower c"
    "drop n code = [] \<or> (length (drop n code) = 3 \<and> hd (drop n code) = CHR ''-''
        \<and> (\<forall>c \<in> set (tl (drop n code)). is_letter c))"
    unfolding is_lang_code_def by auto
  let ?a = "take n code" and ?b = "drop n code"
  have 1: "code = ?a @ ?b" by simp
  have 2: "2 \<le> length ?a" "length ?a \<le> 3" using n(1,2) by auto
  have 3: "?b = [] \<or> (\<exists>c. ?b = CHR ''-'' # c \<and> length c = 2 \<and> (\<forall>x \<in> set c. is_letter x))"
  proof (cases "?b = []")
    case True
    then show ?thesis by simp
  next
    case False
    with n(4) have b: "length ?b = 3" "hd ?b = CHR ''-''" "\<forall>c \<in> set (tl ?b). is_letter c"
      by simp_all
    from False have "?b = hd ?b # tl ?b" by simp
    with b have "?b = CHR ''-'' # tl ?b \<and> length (tl ?b) = 2 \<and> (\<forall>x \<in> set (tl ?b). is_letter x)"
      by simp
    then show ?thesis by (intro disjI2 exI [of _ "tl ?b"])
  qed
  show ?thesis
    by (intro exI [of _ ?a] exI [of _ ?b] conjI 1 2 n(3) 3)
qed

lemma lang_match_code:
  assumes "is_lang_code code"
  shows "re_match lang_pattern (code @ ''.lproj'' @ post) = Some [code]"
proof -
  from is_lang_code_split [OF assms] obtain a where
    "\<exists>b. code = a @ b \<and> 2 \<le> length a \<and> length a \<le> 3 \<and> (\<forall>c \<in> set a. is_lower c)
           \<and> (b = [] \<or> (\<exists>c. b = CHR ''-'' # c \<and> length c = 2 \<and> (\<forall>x \<in> set c. is_letter x)))" ..
  then obtain b where ab:
    "code = a @ b \<and> 2 \<le> length a \<and> length a \<le> 3 \<and> (\<forall>c \<in> set a. is_lower c)
           \<and> (b = [] \<or> (\<exists>c. b = CHR ''-'' # c \<and> length c = 2 \<and> (\<forall>x \<in> set c. is_letter x)))" ..
  let ?lo = "CRange CHR ''a'' CHR ''z''"
  let ?le = "CUnion (CRange CHR ''a'' CHR ''z'') (CRange CHR ''A'' CHR ''Z'')"
  from ab have code: "code = a @ b" by (rule conjunct1)
  from ab have l2: "2 \<le> length a" and l3: "length a \<le> 3" by simp_all
  from ab have lo: "\<forall>c \<in> set a. cc ?lo c" unfolding cc_lower by (elim conjE)
  from ab have le: "b = [] \<or> (\<exists>c. b = CHR ''-'' # c \<and> length c = 2 \<and> (\<forall>x \<in> set c. cc ?le x))"
    unfolding cc_letter by (elim conjE)
  have nd: "CHR ''.'' \<notin> set code"
    unfolding code by (rule code_sep_free [OF lo le]) simp_all
  have ex: "([code], post) \<in> set (matches lang_pattern (code @ ''.lproj'' @ post))"
    unfolding lang_pattern_unfold code
    by (rule group_code_matches [OF suffix_lit_iff l2 l3 lo le])
  have un: "g = [code]" if "(g, rest) \<in> set (matches lang_pattern (code @ ''.lproj'' @ post))" for g rest
    by (rule group_code_captures [of "seqs (lits ''.lproj'')" "CHR ''.''" "''lproj''" g rest ?lo "CHR ''-''" ?le code post,
          OF suffix_lit_iff that [unfolded lang_pattern_unfold] _ _ _ nd]) simp_all
  from ex un show ?thesis by (rule re_match_unique)
qed

lemma str_in_append_right: "str_in sub x \<Longrightarrow> str_in sub (x @ y)"
  unfolding str_in_iff
proof -
  assume "\<exists>a b. x = a @ sub @ b"
  then obtain a b where "x = a @ sub @ b" by blast
  then have "x @ y = a @ sub @ (b @ y)" by simp
  then show "\<exists>a b. x @ y = a @ sub @ b" by blast
qed

lemma lang_search_first_segment:
  assumes "is_lang_code code" and "\<not> str_in ''.lproj'' pre"
    and "pre = [] \<or> last pre = CHR ''/''"
  shows "re_search lang_pattern (pre @ code @ ''.lproj'' @ post) = Some [code]"
proof -
  let ?s = "code @ ''.lproj'' @ post"
  have "\<forall>t. suffix t (pre @ ?s) \<and> length ?s < length t \<longrightarrow> matches lang_pattern t = []"
  proof (intro allI impI, elim conjE)
    fix t assume t: "suffix t (pre @ ?s)" and len: "length ?s < length t"
    from t consider "suffix t ?s" | x where "t = x @ ?s" "suffix x pre"
      unfolding suffix_append by blast
    then show "matches lang_pattern t = []"
    proof cases
      case 1
      then have "length t \<le> length ?s" by (rule suffix_length_le)
      with len show ?thesis by simp
    next
      case 2
      with len have x: "x \<noteq> []" by auto
      with 2(2) have "pre \<noteq> []" by (auto simp: suffix_def)
      with assms(3) have "last pre = CHR ''/''" by simp
      moreover from 2(2) x have "last x = last pre" by (auto simp: suffix_def)
      ultimately have xe: "x = butlast x @ [CHR ''/'']" using x by (metis append_butlast_last_id)
      show ?thesis
      proof (rule ccontr)
        assume "matches lang_pattern t \<noteq> []"
        then have "matches lang_pattern (butlast x @ CHR ''/'' # ?s) \<noteq> []"
          using 2(1) xe by (metis append.assoc append_Cons append_Nil)
        then have "str_in ''.lproj'' (butlast x)" by (rule lang_no_match_before_slash)
        then have "str_in ''.lproj'' (butlast x @ [CHR ''/''])" by (rule str_in_append_right)
        with xe have "str_in ''.lproj'' x" by simp
        with 2(2) have "str_in ''.lproj'' pre" by (rule str_in_suffix)
        with assms(2) show False by simp
      qed
    qed
  qed
  then have "re_search lang_pattern (pre @ ?s) = re_search lang_pattern ?s"
    by (rule re_search_skip)
  also have "\<dots> = Some [code]"
    by (rule re_search_match) (rule lang_match_code [OF assms(1)])
  finally show ?thesis .
qed




lemma re_match_Some_iff_nonempty: "(\<exists>g. re_match r s = Some g) \<longleftrightarrow> matches r s \<noteq> []"
  by (cases "matches r s") (auto simp: re_match_def)












section \<open>Properties of the translation loop of \<^verbatim>\<open>main\<close>\<close>

lemma zip_map_text_Nil: "zip_map_text ds [] = Inr []"
  by (cases ds) simp_all

lemma get_translated_declarations_shipped:
  "get_translated_declarations missing_decls dest src = Inr []"
  by (simp add: get_translated_declarations_def get_translated_declarations_with_def
      a_batch_translate_def zip_map_text_Nil)

lemma translate_loop_stops:
  assumes "md \<noteq> []"
    and "get_language base_file = Inr src"
    and "get_language f = Inl e"
    and "\<forall>p \<in> set pre. snd p = [] \<or> (\<exists>dest. get_language (fst p) = Inr dest)"
  shows "\<exists>td. translate_loop base_file (pre @ (f, md) # post) translated = (Some e, td)
           \<and> set (dict_keys td) \<subseteq> set (dict_keys translated) \<union> fst ` set pre"
  using assms(4)
proof (induction pre arbitrary: translated)
  case Nil
  then show ?case using assms(1-3) by simp
next
  case (Cons p pre)
  obtain g m where p: "p = (g, m)" by (cases p)
  have rest: "\<forall>p \<in> set pre. snd p = [] \<or> (\<exists>dest. get_language (fst p) = Inr dest)"
    using Cons.prems by simp
  show ?case
  proof (cases "m = []")
    case True
    from Cons.IH [OF rest, of translated] obtain td where
      "translate_loop base_file (pre @ (f, md) # post) translated = (Some e, td)"
      "set (dict_keys td) \<subseteq> set (dict_keys translated) \<union> fst ` set pre"
      by blast
    with True p show ?thesis by auto
  next
    case False
    with Cons.prems p obtain dest where dest: "get_language g = Inr dest" by auto
    from Cons.IH [OF rest, of "dict_setitem translated g []"] obtain td where
      td: "translate_loop base_file (pre @ (f, md) # post) (dict_setitem translated g []) = (Some e, td)"
      "set (dict_keys td) \<subseteq> set (dict_keys (dict_setitem translated g [])) \<union> fst ` set pre"
      by blast
    have "set (dict_keys (dict_setitem translated g [])) = insert g (set (dict_keys translated))"
      by (simp add: dict_keys_def dict_setitem_def dom_update)
    with td False p dest assms(2) show ?thesis
      by (auto simp: get_translated_declarations_shipped)
  qed
qed

text \<open>
  C3, amended. \<^verbatim>\<open>main\<close> does not catch the \<^verbatim>\<open>ValueError\<close> of \<^verbatim>\<open>get_language\<close>. When
  the language of a comparison file with missing declarations cannot be resolved, while
  the base file and the files before it resolve, the translation loop ends at that file
  with the error: only files before it in iteration order have an entry in
  \<^verbatim>\<open>translated_declarations\<close>, and neither the file itself nor any file after it is
  translated.
\<close>
theorem unresolved_language_stops_translation:
  assumes "dict_wf (pre @ (f, md) # post)"
    and "md \<noteq> []"
    and "get_language base_file = Inr src"
    and "get_language f = Inl e"
    and "\<forall>p \<in> set pre. snd p = [] \<or> (\<exists>dest. get_language (fst p) = Inr dest)"
  shows "\<exists>td. translate_loop base_file (pre @ (f, md) # post) [] = (Some e, td)
           \<and> set (dict_keys td) \<subseteq> fst ` set pre
           \<and> \<not> dict_contains f td
           \<and> (\<forall>p \<in> set post. \<not> dict_contains (fst p) td)"
proof -
  from translate_loop_stops [OF assms(2-5), of post "[]"] obtain td where
    td: "translate_loop base_file (pre @ (f, md) # post) [] = (Some e, td)"
    "set (dict_keys td) \<subseteq> fst ` set pre"
    by (auto simp: dict_keys_def)
  have d: "distinct (map fst pre @ f # map fst post)"
    using assms(1) by (simp add: dict_wf_def)
  have "\<not> dict_contains f td"
    using td(2) d by (auto simp: dict_contains_def dict_keys_def)
  moreover have "\<forall>p \<in> set post. \<not> dict_contains (fst p) td"
  proof
    fix p assume "p \<in> set post"
    then have "fst p \<in> fst ` set post" by simp
    with d have "fst p \<notin> fst ` set pre" by auto
    with td(2) show "\<not> dict_contains (fst p) td"
      by (auto simp: dict_contains_def dict_keys_def)
  qed
  ultimately show ?thesis using td by blast
qed

text \<open>
  C3, as stated, fails: with a first comparison file whose path names no language and a
  second one under \<^verbatim>\<open>fr.lproj\<close>, both with a missing declaration, the loop ends with
  the \<^verbatim>\<open>ValueError\<close> of the first file and the second file is never translated.
\<close>
theorem unresolved_language_counterexample:
  "get_language ''en.lproj/Localizable.strings'' = Inr ''en''
   \<and> get_language ''fr.lproj/Localizable.strings'' = Inr ''fr''
   \<and> get_language ''other/Localizable.strings''
       = Inl (ValueError ''Could not determine language from filepath: other/Localizable.strings'')
   \<and> translate_loop ''en.lproj/Localizable.strings''
        [(''other/Localizable.strings'', [(''bye'', (1, ''Bye''))]),
         (''fr.lproj/Localizable.strings'', [(''bye'', (1, ''Bye''))])] []
       = (Some (ValueError ''Could not determine language from filepath: other/Localizable.strings''), [])"
  by code_simp

text \<open>
  Three comparison files, the second without a language: the first is translated, the
  loop ends at the second, the third is not reached.
\<close>
theorem unresolved_language_stops_translation_witness:
  "dict_wf ([(''fr.lproj/Localizable.strings'', [(''bye'', (1::nat, ''Bye''))])]
            @ (''other/Localizable.strings'', [(''bye'', (1, ''Bye''))])
            # [(''de.lproj/Localizable.strings'', [(''bye'', (1, ''Bye''))])])
   \<and> get_language ''en.lproj/Localizable.strings'' = Inr ''en''
   \<and> get_language ''fr.lproj/Localizable.strings'' = Inr ''fr''
   \<and> get_language ''other/Localizable.strings''
       = Inl (ValueError ''Could not determine language from filepath: other/Localizable.strings'')
   \<and> (\<exists>td. translate_loop ''en.lproj/Localizable.strings''
          ([(''fr.lproj/Localizable.strings'', [(''bye'', (1, ''Bye''))])]
            @ (''other/Localizable.strings'', [(''bye'', (1, ''Bye''))])
            # [(''de.lproj/Localizable.strings'', [(''bye'', (1, ''Bye''))])]) []
         = (Some (ValueError ''Could not determine language from filepath: other/Localizable.strings''), td)
        \<and> set (dict_keys td) \<subseteq> fst ` set [(''fr.lproj/Localizable.strings'', [(''bye'', (1::nat, ''Bye''))])]
        \<and> \<not> dict_contains ''other/Localizable.strings'' td
        \<and> (\<forall>p \<in> set [(''de.lproj/Localizable.strings'', [(''bye'', (1::nat, ''Bye''))])].
              \<not> dict_contains (fst p) td))"
proof -
  let ?m = "[(''bye'', (1::nat, ''Bye''))]"
  let ?pre = "[(''fr.lproj/Localizable.strings'', ?m)]"
  let ?post = "[(''de.lproj/Localizable.strings'', ?m)]"
  have h1: "dict_wf (?pre @ (''other/Localizable.strings'', ?m) # ?post)"
    by (simp add: dict_wf_def)
  have h2: "?m \<noteq> []" by simp
  have h3: "get_language ''en.lproj/Localizable.strings'' = Inr ''en''" by code_simp
  have h4: "get_language ''other/Localizable.strings''
       = Inl (ValueError ''Could not determine language from filepath: other/Localizable.strings'')"
    by code_simp
  have fr: "get_language ''fr.lproj/Localizable.strings'' = Inr ''fr''" by code_simp
  then have h5: "\<forall>p \<in> set ?pre. snd p = [] \<or> (\<exists>dest. get_language (fst p) = Inr dest)"
    by simp
  note c = unresolved_language_stops_translation [OF h1 h2 h3 h4 h5]
  show ?thesis by (intro conjI h1 h3 fr h4 c)
qed

end
